theory Spec2Isabelle
  imports Main "HOL-Library.Word"
begin

section \<open>Data model\<close>

text \<open>
  The SDK is written in TypeScript. Numbers that the code uses as millisecond clocks,
  counters and sizes are modelled as \<open>int\<close>; \<open>Date.now()\<close> and \<open>generateId()\<close>
  (module \<open>visitor\<close>) are inputs of every operation that calls them (\<open>now\<close>, \<open>gen\<close>).
  One operation reads the clock once.
\<close>

datatype severity = Error | Warning | Info

text \<open>
  The JSON bodies handed to the transport. \<open>userAgent\<close> (a host constant) is left out,
  and the ISO text of \<open>new Date()\<close> is represented by the clock value.
\<close>

datatype payload =
    ErrorPayload (p_visitorId: string) (p_sessionId: string) (p_type: string)
      (p_message: string) (p_stack: "string option") (p_severity: severity)
      (p_timestamp: int) (p_context: "string option")
  | ScreenPayload string string string string string int
  | DurationPayload (p_screenViewId: string) (p_duration: int)
  | EventPayload string string string string int

record QueuedEvent =
  event_id :: string
  endpoint :: string
  data :: payload
  timestamp :: int
  retryCount :: int

text \<open>The four keys of the key-value store, and what a stored text can be.\<close>

datatype key = KEY_VISITOR_ID | KEY_SESSION_ID | KEY_SESSION_TIMESTAMP | KEY_OFFLINE_QUEUE

datatype item =
    Text string                \<comment> \<open>a plain string\<close>
  | Num int                    \<comment> \<open>\<open>String(n)\<close> of a number\<close>
  | Json "QueuedEvent list"    \<comment> \<open>\<open>JSON.stringify(queue)\<close>\<close>

datatype js_error = StorageError | SyntaxError | FetchError

datatype callback =
    ActivateScreen string string string   \<comment> \<open>name, effective path, screenViewId\<close>
  | EvictHash int                         \<comment> \<open>the dedup key to delete\<close>

datatype fetch_result = Response bool | NetworkError

record ResolvedConfig =
  apiKey :: string
  apiUrl :: string
  autoTrackScreens :: bool
  autoTrackErrors :: bool
  sessionTimeout :: int
  enableLogging :: bool
  maxQueueSize :: int
  flushInterval :: int

record JsError =
  err_name :: string
  err_message :: string
  err_stack :: "string option"

text \<open>
  The mutable state of one client: the fields of \<open>Storage\<close>, \<open>Transport\<close>,
  \<open>ErrorTracker\<close> and \<open>HimetricaClient\<close> (one instance of each, sharing the storage),
  and the host: the key-value store \<open>disk\<close>, the script \<open>faults\<close> telling which of the
  coming store calls reject (\<open>True\<close> rejects; none left means every call succeeds), the
  pending timers (handle, due time, callback) and the POST requests issued so far.
\<close>

record sdk =
  visitorId :: string
  sessionId :: string
  sessionTimestamp :: int
  initialized :: bool
  disk :: "key \<Rightarrow> item option"
  faults :: "bool list"
  flushing :: bool
  requests :: "(string \<times> payload) list"
  errorTimestamps :: "int list"
  sentErrorHashes :: "int set"
  currentScreenName :: "string option"
  currentScreenPath :: "string option"
  currentScreenViewId :: "string option"
  screenStartTime :: int
  screenDebounceTimer :: "nat option"
  isFirstScreen :: bool
  destroyed :: bool
  timers :: "(nat \<times> int \<times> callback) list"
  nextTimerId :: nat

section \<open>Results, exceptions and promises\<close>

text \<open>
  An operation maps the state to a result and the new state; a thrown exception or a
  rejected promise is the result \<open>Inl\<close>.
\<close>

type_synonym 'a io = "sdk \<Rightarrow> (js_error + 'a) \<times> sdk"

definition ret :: "'a \<Rightarrow> 'a io" where
  "ret v s = (Inr v, s)"

definition throw :: "js_error \<Rightarrow> 'a io" where
  "throw e s = (Inl e, s)"

definition and_then :: "'a io \<Rightarrow> ('a \<Rightarrow> 'b io) \<Rightarrow> 'b io" where
  "and_then m k s = (case m s of (Inl e, s') \<Rightarrow> (Inl e, s') | (Inr v, s') \<Rightarrow> k v s')"

definition modify :: "(sdk \<Rightarrow> sdk) \<Rightarrow> unit io" where
  "modify f s = (Inr (), f s)"

definition try_catch :: "'a io \<Rightarrow> (js_error \<Rightarrow> 'a io) \<Rightarrow> 'a io" where
  "try_catch m h s = (case m s of (Inl e, s') \<Rightarrow> h e s' | (Inr v, s') \<Rightarrow> (Inr v, s'))"

definition try_finally :: "'a io \<Rightarrow> (sdk \<Rightarrow> sdk) \<Rightarrow> 'a io" where
  "try_finally m f s = (case m s of (r, s') \<Rightarrow> (r, f s'))"

text \<open>\<open>promise.catch(() => {})\<close>: the rejection is dropped.\<close>

definition catch_ignore :: "unit io \<Rightarrow> unit io" where
  "catch_ignore m = try_catch m (\<lambda>e. ret ())"

section \<open>The key-value store (AsyncStorage)\<close>

definition next_call_fails :: "sdk \<Rightarrow> bool" where
  "next_call_fails s = (case faults s of [] \<Rightarrow> False | f # fs \<Rightarrow> f)"

definition consume_fault :: "sdk \<Rightarrow> sdk" where
  "consume_fault s = s\<lparr>faults := tl (faults s)\<rparr>"

definition getItem :: "key \<Rightarrow> item option io" where
  "getItem k s =
     (if next_call_fails s then (Inl StorageError, consume_fault s)
      else (Inr (disk s k), consume_fault s))"

definition setItem :: "key \<Rightarrow> item \<Rightarrow> unit io" where
  "setItem k v s =
     (if next_call_fails s then (Inl StorageError, consume_fault s)
      else (Inr (), (consume_fault s)\<lparr>disk := (disk s)(k \<mapsto> v)\<rparr>))"

definition multiSet :: "(key \<times> item) list \<Rightarrow> unit io" where
  "multiSet kvs s =
     (if next_call_fails s then (Inl StorageError, consume_fault s)
      else (Inr (),
        (consume_fault s)\<lparr>disk := fold (\<lambda>(k, v) d. d(k \<mapsto> v)) kvs (disk s)\<rparr>))"

text \<open>
  \<open>JSON.parse\<close> gives back the queue that \<open>JSON.stringify\<close> wrote. Under the key of
  the queue only \<open>saveQueue\<close> writes, so the store holds a queue there or nothing; a
  text of another kind under that key, which this program never writes, is taken as
  one that \<open>JSON.parse\<close> rejects.
\<close>

definition JSON_parse :: "item \<Rightarrow> js_error + QueuedEvent list" where
  "JSON_parse raw = (case raw of Json q \<Rightarrow> Inr q | _ \<Rightarrow> Inl SyntaxError)"

section \<open>Storage (storage.ts)\<close>

definition getVisitorId :: "sdk \<Rightarrow> string" where
  "getVisitorId s = visitorId s"

definition setVisitorId :: "string \<Rightarrow> unit io" where
  "setVisitorId v =
     and_then (modify (\<lambda>s. s\<lparr>visitorId := v\<rparr>))
       (\<lambda>_. catch_ignore (setItem KEY_VISITOR_ID (Text v)))"

definition getSessionId :: "int \<Rightarrow> string \<Rightarrow> int \<Rightarrow> string io" where
  "getSessionId now gen timeout s =
     (if now - sessionTimestamp s > timeout then
        and_then (modify (\<lambda>s. s\<lparr>sessionId := gen, sessionTimestamp := now\<rparr>))
          (\<lambda>_. and_then
             (catch_ignore (multiSet [(KEY_SESSION_ID, Text gen), (KEY_SESSION_TIMESTAMP, Num now)]))
             (\<lambda>_ s'. ret (sessionId s') s')) s
      else
        and_then (modify (\<lambda>s. s\<lparr>sessionTimestamp := now\<rparr>))
          (\<lambda>_. and_then
             (catch_ignore (setItem KEY_SESSION_TIMESTAMP (Num now)))
             (\<lambda>_ s'. ret (sessionId s') s')) s)"

definition isReady :: "sdk \<Rightarrow> bool" where
  "isReady s = initialized s"

definition getQueue :: "QueuedEvent list io" where
  "getQueue =
     try_catch
       (and_then (getItem KEY_OFFLINE_QUEUE)
          (\<lambda>raw. case raw of
               None \<Rightarrow> ret []
             | Some r \<Rightarrow>
                 if r = Text [] then ret []
                 else (case JSON_parse r of Inl e \<Rightarrow> throw e | Inr q \<Rightarrow> ret q)))
       (\<lambda>e. ret [])"

definition saveQueue :: "QueuedEvent list \<Rightarrow> unit io" where
  "saveQueue queue = try_catch (setItem KEY_OFFLINE_QUEUE (Json queue)) (\<lambda>e. ret ())"

definition enqueueEvent :: "QueuedEvent \<Rightarrow> unit io" where
  "enqueueEvent event = and_then getQueue (\<lambda>queue. saveQueue (queue @ [event]))"

definition removeEvent :: "string \<Rightarrow> unit io" where
  "removeEvent i =
     and_then getQueue (\<lambda>queue. saveQueue (filter (\<lambda>e. event_id e \<noteq> i) queue))"

text \<open>\<open>Array.prototype.findIndex\<close>: the first index that satisfies the test, or -1.\<close>

fun findIndex :: "('a \<Rightarrow> bool) \<Rightarrow> 'a list \<Rightarrow> int" where
  "findIndex P [] = -1"
| "findIndex P (x # xs) =
     (if P x then 0 else (let i = findIndex P xs in if i = -1 then -1 else i + 1))"

definition updateEvent :: "QueuedEvent \<Rightarrow> unit io" where
  "updateEvent event =
     and_then getQueue (\<lambda>queue.
       let idx = findIndex (\<lambda>e. event_id e = event_id event) queue in
       if idx \<noteq> -1 then saveQueue (queue[nat idx := event]) else ret ())"

text \<open>\<open>xs.slice(start)\<close> for an integer start: a negative start counts from the end.\<close>

definition slice_from :: "int \<Rightarrow> 'a list \<Rightarrow> 'a list" where
  "slice_from start xs =
     (if start < 0 then drop (nat (max (int (length xs) + start) 0)) xs
      else drop (nat start) xs)"

definition pruneQueue :: "int \<Rightarrow> unit io" where
  "pruneQueue maxSize =
     and_then getQueue (\<lambda>queue.
       if int (length queue) > maxSize
       then saveQueue (slice_from (int (length queue) - maxSize) queue)
       else ret ())"

text \<open>The field values a newly constructed client has.\<close>

definition fresh_sdk :: sdk where
  "fresh_sdk =
     \<lparr>visitorId = [], sessionId = [], sessionTimestamp = 0, initialized = False,
      disk = (\<lambda>k. None), faults = [], flushing = False, requests = [],
      errorTimestamps = [], sentErrorHashes = {},
      currentScreenName = None, currentScreenPath = None, currentScreenViewId = None,
      screenStartTime = 0, screenDebounceTimer = None, isFirstScreen = True,
      destroyed = False, timers = [], nextTimerId = 1\<rparr>"

section \<open>Transport (transport.ts)\<close>

text \<open>
  \<open>fetch\<close> issues the POST; the network decides the outcome \<open>res\<close>. \<open>send\<close> turns
  a response into its \<open>ok\<close> flag and an exception into \<open>false\<close>.
\<close>

definition fetch :: "string \<Rightarrow> payload \<Rightarrow> fetch_result \<Rightarrow> bool io" where
  "fetch url body res s =
     (case res of
        Response ok \<Rightarrow> (Inr ok, s\<lparr>requests := requests s @ [(url, body)]\<rparr>)
      | NetworkError \<Rightarrow> (Inl FetchError, s\<lparr>requests := requests s @ [(url, body)]\<rparr>))"

definition send :: "ResolvedConfig \<Rightarrow> string \<Rightarrow> payload \<Rightarrow> fetch_result \<Rightarrow> bool io" where
  "send cfg ep d res = try_catch (fetch (apiUrl cfg @ ep) d res) (\<lambda>e. ret False)"

definition sendOrQueue ::
  "ResolvedConfig \<Rightarrow> int \<Rightarrow> string \<Rightarrow> string \<Rightarrow> payload \<Rightarrow> fetch_result \<Rightarrow> unit io" where
  "sendOrQueue cfg now gen ep d res =
     and_then (send cfg ep d res) (\<lambda>success.
       if \<not> success then
         and_then
           (enqueueEvent \<lparr>event_id = gen, endpoint = ep, data = d, timestamp = now, retryCount = 0\<rparr>)
           (\<lambda>_. pruneQueue (maxQueueSize cfg))
       else ret ())"

text \<open>
  \<open>Promise.allSettled\<close> over the handlers when they do not overlap: each runs to its
  end before the next continues, in the order of the batch; a rejection of one handler
  is recorded and does not stop the others. The handlers are started together and are
  suspended at every \<open>await\<close>; \<open>loop_step\<close> below is the loop with these suspension
  points, and \<open>serial_flush_is_flush\<close> shows that its runs without overlap are
  \<open>flush\<close>.
\<close>

fun allSettled :: "unit io list \<Rightarrow> unit io" where
  "allSettled [] = ret ()"
| "allSettled (m # ms) = and_then (catch_ignore m) (\<lambda>_. allSettled ms)"

definition flush_handler :: "ResolvedConfig \<Rightarrow> QueuedEvent \<Rightarrow> fetch_result \<Rightarrow> unit io" where
  "flush_handler cfg event res =
     and_then (send cfg (endpoint event) (data event) res) (\<lambda>success.
       if success then removeEvent (event_id event)
       else if retryCount event < 3 then
         updateEvent (event\<lparr>retryCount := retryCount event + 1\<rparr>)
       else removeEvent (event_id event))"

text \<open>\<open>net\<close> gives the outcome of the POST of each event of the batch.\<close>

definition flush :: "ResolvedConfig \<Rightarrow> (QueuedEvent \<Rightarrow> fetch_result) \<Rightarrow> unit io" where
  "flush cfg net s =
     (if flushing s then ret () s
      else
        try_finally
          (and_then getQueue (\<lambda>queue.
             if length queue = 0 then ret ()
             else allSettled (map (\<lambda>event. flush_handler cfg event (net event)) (take 50 queue))))
          (\<lambda>s. s\<lparr>flushing := False\<rparr>)
          (s\<lparr>flushing := True\<rparr>))"

section \<open>Observations used in the statements\<close>

text \<open>The queue that a successful read of the store returns.\<close>

definition queue_of :: "sdk \<Rightarrow> QueuedEvent list" where
  "queue_of s = (case disk s KEY_OFFLINE_QUEUE of Some (Json q) \<Rightarrow> q | _ \<Rightarrow> [])"

text \<open>The state with the queue \<open>q\<close> written to the store.\<close>

definition with_queue :: "QueuedEvent list \<Rightarrow> sdk \<Rightarrow> sdk" where
  "with_queue q s = s\<lparr>disk := (disk s)(KEY_OFFLINE_QUEUE \<mapsto> Json q)\<rparr>"

definition send_result :: "fetch_result \<Rightarrow> bool" where
  "send_result res = (case res of Response ok \<Rightarrow> ok | NetworkError \<Rightarrow> False)"

text \<open>What a flush leaves of one event of its batch.\<close>

definition retained :: "(QueuedEvent \<Rightarrow> fetch_result) \<Rightarrow> QueuedEvent \<Rightarrow> QueuedEvent list" where
  "retained net e =
     (if send_result (net e) then []
      else if retryCount e < 3 then [e\<lparr>retryCount := retryCount e + 1\<rparr>]
      else [])"

text \<open>The effect of one handler of a flush on the queue.\<close>

definition handle_q :: "(QueuedEvent \<Rightarrow> fetch_result) \<Rightarrow> QueuedEvent \<Rightarrow> QueuedEvent list \<Rightarrow> QueuedEvent list" where
  "handle_q net e q =
     (if send_result (net e) then filter (\<lambda>x. event_id x \<noteq> event_id e) q
      else if retryCount e < 3 then
        (let idx = findIndex (\<lambda>x. event_id x = event_id e) q in
         if idx \<noteq> -1 then q[nat idx := e\<lparr>retryCount := retryCount e + 1\<rparr>] else q)
      else filter (\<lambda>x. event_id x \<noteq> event_id e) q)"







text \<open>Concrete inputs: the scenarios of the specification.\<close>

definition scenario_cfg :: "int \<Rightarrow> ResolvedConfig" where
  "scenario_cfg n =
     \<lparr>apiKey = ''key'', apiUrl = ''https://app.himetrica.com'', autoTrackScreens = True,
      autoTrackErrors = True, sessionTimeout = 1800000, enableLogging = False,
      maxQueueSize = n, flushInterval = 30\<rparr>"

definition scenario_event :: "string \<Rightarrow> int \<Rightarrow> QueuedEvent" where
  "scenario_event i n =
     \<lparr>event_id = i, endpoint = ''/api/track/event'', data = EventPayload ''v'' ''s'' i [] 0,
      timestamp = 0, retryCount = n\<rparr>"


definition scenario_net :: "QueuedEvent \<Rightarrow> fetch_result" where
  "scenario_net e = (if event_id e = ''B'' then Response True else NetworkError)"

text \<open>An initialised client whose session was last active at time 1000.\<close>

definition scenario_session :: sdk where
  "scenario_session =
     fresh_sdk\<lparr>visitorId := ''visitor'', sessionId := ''old'', sessionTimestamp := 1000,
       initialized := True\<rparr>"

section \<open>Timers of the host\<close>

text \<open>
  \<open>setTimeout\<close> registers the callback under a new handle, due \<open>delay\<close> after the
  call; \<open>clearTimeout\<close> drops the handle (nothing happens when it is not pending).
\<close>

definition setTimeout :: "callback \<Rightarrow> int \<Rightarrow> int \<Rightarrow> sdk \<Rightarrow> nat \<times> sdk" where
  "setTimeout cb delay now s =
     (nextTimerId s,
      s\<lparr>timers := timers s @ [(nextTimerId s, now + delay, cb)],
        nextTimerId := Suc (nextTimerId s)\<rparr>)"

definition clearTimeout :: "nat \<Rightarrow> sdk \<Rightarrow> sdk" where
  "clearTimeout h s = s\<lparr>timers := filter (\<lambda>t. fst t \<noteq> h) (timers s)\<rparr>"

text \<open>
  A call of \<open>transport.sendOrQueue\<close> that is not awaited: it runs up to the \<open>fetch\<close>
  inside \<open>send\<close>, so the POST is issued; what happens on the response is
  \<open>sendOrQueue\<close> above.
\<close>

definition sendOrQueue_detached :: "ResolvedConfig \<Rightarrow> string \<Rightarrow> payload \<Rightarrow> unit io" where
  "sendOrQueue_detached cfg ep d =
     modify (\<lambda>s. s\<lparr>requests := requests s @ [(apiUrl cfg @ ep, d)]\<rparr>)"

section \<open>ErrorTracker (errors.ts)\<close>

definition MAX_ERRORS_PER_WINDOW :: nat where "MAX_ERRORS_PER_WINDOW = 10"
definition RATE_LIMIT_WINDOW_MS :: int where "RATE_LIMIT_WINDOW_MS = 60000"
definition DEDUP_EXPIRY_MS :: int where "DEDUP_EXPIRY_MS = 5 * 60000"
definition MAX_STACK_LINES :: nat where "MAX_STACK_LINES = 20"

text \<open>
  \<open>hashString\<close>: \<open>hash = ((hash << 5) + hash + c) | 0\<close> is arithmetic on 32-bit
  words; the key is the decimal text of the signed value, represented by that value.
\<close>

fun hashString_loop :: "32 word \<Rightarrow> string \<Rightarrow> 32 word" where
  "hashString_loop hash [] = hash"
| "hashString_loop hash (c # cs) = hashString_loop (push_bit 5 hash + hash + of_char c) cs"

definition hashString :: "string \<Rightarrow> int" where
  "hashString str = sint (hashString_loop 5381 str)"

text \<open>\<open>str.split(c)\<close> and \<open>parts.join(c)\<close> for a one-character separator.\<close>

fun split_on :: "char \<Rightarrow> string \<Rightarrow> string list" where
  "split_on c [] = [[]]"
| "split_on c (x # xs) =
     (if x = c then [] # split_on c xs
      else (case split_on c xs of p # ps \<Rightarrow> (x # p) # ps | [] \<Rightarrow> [[x]]))"

fun join_with :: "char \<Rightarrow> string list \<Rightarrow> string" where
  "join_with c [] = []"
| "join_with c [p] = p"
| "join_with c (p # q # ps) = p @ c # join_with c (q # ps)"

definition normalizeStack :: "string option \<Rightarrow> string option" where
  "normalizeStack stack =
     (case stack of
        None \<Rightarrow> None
      | Some st \<Rightarrow>
          if st = [] then None
          else Some (join_with (CHR 0x0A) (take MAX_STACK_LINES (split_on (CHR 0x0A) st))))"

text \<open>\<open>String(error)\<close> for an \<open>Error\<close> object.\<close>

definition error_toString :: "JsError \<Rightarrow> string" where
  "error_toString e =
     (if err_name e = [] then err_message e
      else if err_message e = [] then err_name e
      else err_name e @ '': '' @ err_message e)"

definition isRateLimited :: "int \<Rightarrow> sdk \<Rightarrow> bool \<times> sdk" where
  "isRateLimited now s =
     (let s1 = s\<lparr>errorTimestamps := filter (\<lambda>t. now - t < RATE_LIMIT_WINDOW_MS) (errorTimestamps s)\<rparr>
      in if length (errorTimestamps s1) \<ge> MAX_ERRORS_PER_WINDOW then (True, s1)
         else (False, s1\<lparr>errorTimestamps := errorTimestamps s1 @ [now]\<rparr>))"

definition isDuplicate :: "int \<Rightarrow> int \<Rightarrow> sdk \<Rightarrow> bool \<times> sdk" where
  "isDuplicate now hash s =
     (if hash \<in> sentErrorHashes s then (True, s)
      else (False,
        snd (setTimeout (EvictHash hash) DEDUP_EXPIRY_MS now
               (s\<lparr>sentErrorHashes := insert hash (sentErrorHashes s)\<rparr>))))"

text \<open>The message, the stack and the dedup key that \<open>captureError\<close> computes.\<close>

definition error_message :: "JsError \<Rightarrow> string" where
  "error_message e = (if err_message e \<noteq> [] then err_message e else error_toString e)"

definition dedupKey :: "JsError \<Rightarrow> int" where
  "dedupKey e =
     hashString (error_message e @ ''|'' @
       (case normalizeStack (err_stack e) of None \<Rightarrow> [] | Some st \<Rightarrow> st))"

definition captureError ::
  "ResolvedConfig \<Rightarrow> int \<Rightarrow> string \<Rightarrow> JsError \<Rightarrow> string option \<Rightarrow> string \<Rightarrow> severity \<Rightarrow> unit io" where
  "captureError cfg now gen e ctx ty sev s =
     (if \<not> isReady s then ret () s
      else
        let message = error_message e;
            stack = normalizeStack (err_stack e);
            key = dedupKey e
        in case isRateLimited now s of
             (True, s1) \<Rightarrow> ret () s1
           | (False, s1) \<Rightarrow>
               (case isDuplicate now key s1 of
                  (True, s2) \<Rightarrow> ret () s2
                | (False, s2) \<Rightarrow>
                    and_then (getSessionId now gen (sessionTimeout cfg))
                      (\<lambda>sid. sendOrQueue_detached cfg (''/api/track/errors?apiKey='' @ apiKey cfg)
                         (ErrorPayload (getVisitorId s2) sid ty message stack sev now ctx))
                      s2))"

text \<open>\<open>stack\<close> is the stack that the engine gives to \<open>new Error(message)\<close>.\<close>

definition captureMessage ::
  "ResolvedConfig \<Rightarrow> int \<Rightarrow> string \<Rightarrow> string \<Rightarrow> string option \<Rightarrow> severity \<Rightarrow> string option \<Rightarrow> unit io" where
  "captureMessage cfg now gen message stack sev ctx =
     captureError cfg now gen
       \<lparr>err_name = ''Error'', err_message = message, err_stack = stack\<rparr> ctx ''console'' sev"

text \<open>The callback of the dedup timer.\<close>

definition evictHash :: "int \<Rightarrow> unit io" where
  "evictHash hash = modify (\<lambda>s. s\<lparr>sentErrorHashes := sentErrorHashes s - {hash}\<rparr>)"

section \<open>HimetricaClient (client.ts)\<close>

definition MIN_DURATION :: int where "MIN_DURATION = 1"
definition MAX_DURATION :: int where "MAX_DURATION = 3600"
definition FIRST_SCREEN_DELAY :: int where "FIRST_SCREEN_DELAY = 300"
definition SUBSEQUENT_SCREEN_DELAY :: int where "SUBSEQUENT_SCREEN_DELAY = 1000"

text \<open>\<open>Math.round(ms / 1000)\<close> for an integer number of milliseconds (halves round up).\<close>

definition round_seconds :: "int \<Rightarrow> int" where
  "round_seconds ms = (ms + 500) div 1000"

definition sendScreenDuration :: "ResolvedConfig \<Rightarrow> int \<Rightarrow> unit io" where
  "sendScreenDuration cfg now s =
     (case currentScreenViewId s of
        None \<Rightarrow> ret () s
      | Some vid \<Rightarrow>
          if vid = [] \<or> screenStartTime s = 0 then ret () s
          else if \<not> isReady s then ret () s
          else
            let durationSec = round_seconds (now - screenStartTime s);
                clampedDuration = max MIN_DURATION (min MAX_DURATION durationSec)
            in if durationSec < MIN_DURATION then ret () s
               else
                 and_then
                   (sendOrQueue_detached cfg (''/api/track/screen/duration?apiKey='' @ apiKey cfg)
                      (DurationPayload vid clampedDuration))
                   (\<lambda>_. modify (\<lambda>s. s\<lparr>currentScreenViewId := None, screenStartTime := 0\<rparr>))
                   s)"

definition trackScreen ::
  "ResolvedConfig \<Rightarrow> int \<Rightarrow> string \<Rightarrow> string \<Rightarrow> string option \<Rightarrow> unit io" where
  "trackScreen cfg now gen name path s =
     (if destroyed s then ret () s
      else
        let effectivePath = (case path of None \<Rightarrow> ''/'' @ name | Some p \<Rightarrow> p)
        in if currentScreenName s = Some name \<and> currentScreenPath s = Some effectivePath
           then ret () s
           else
             and_then (sendScreenDuration cfg now)
               (\<lambda>_ s1.
                  let delay = (if isFirstScreen s1 then FIRST_SCREEN_DELAY else SUBSEQUENT_SCREEN_DELAY);
                      s2 = (case screenDebounceTimer s1 of
                              Some h \<Rightarrow> clearTimeout h s1
                            | None \<Rightarrow> s1);
                      screenViewId = gen;
                      (h, s3) = setTimeout (ActivateScreen name effectivePath screenViewId) delay now s2
                  in ret () (s3\<lparr>screenDebounceTimer := Some h\<rparr>))
               s)"

text \<open>The callback of the debounce timer: the activation of the screen view.\<close>

definition activateScreen ::
  "ResolvedConfig \<Rightarrow> int \<Rightarrow> string \<Rightarrow> string \<Rightarrow> string \<Rightarrow> string \<Rightarrow> unit io" where
  "activateScreen cfg now gen name effectivePath screenViewId =
     and_then
       (modify (\<lambda>s. s\<lparr>currentScreenName := Some name, currentScreenPath := Some effectivePath,
          currentScreenViewId := Some screenViewId, screenStartTime := now,
          isFirstScreen := False\<rparr>))
       (\<lambda>_ s.
          if \<not> isReady s then ret () s
          else
            and_then (getSessionId now gen (sessionTimeout cfg))
              (\<lambda>sid. sendOrQueue_detached cfg (''/api/track/screen?apiKey='' @ apiKey cfg)
                 (ScreenPayload (getVisitorId s) sid screenViewId name effectivePath now))
              s)"

section \<open>The event loop\<close>

definition run_callback :: "ResolvedConfig \<Rightarrow> int \<Rightarrow> string \<Rightarrow> callback \<Rightarrow> unit io" where
  "run_callback cfg now gen cb =
     (case cb of
        ActivateScreen name path vid \<Rightarrow> activateScreen cfg now gen name path vid
      | EvictHash hash \<Rightarrow> evictHash hash)"

text \<open>
  The timer with handle \<open>h\<close> fires at time \<open>now\<close>: when it is pending and due, it leaves
  the table and its callback runs; a timer never fires before it is due.
\<close>

definition fire :: "ResolvedConfig \<Rightarrow> nat \<Rightarrow> int \<Rightarrow> string \<Rightarrow> sdk \<Rightarrow> sdk" where
  "fire cfg h now gen s =
     (case find (\<lambda>t. fst t = h) (timers s) of
        None \<Rightarrow> s
      | Some (h', due, cb) \<Rightarrow>
          if now < due then s
          else snd (run_callback cfg now gen cb (clearTimeout h s)))"

text \<open>
  What can happen to a client, each with the clock value and the id that
  \<open>generateId\<close> would return: an error is captured, a screen is tracked, the duration
  of the screen is sent (flush, background, destroy), a timer fires.
\<close>

datatype action =
    CaptureError int string JsError "string option" string severity
  | TrackScreen int string string "string option"
  | SendScreenDuration int
  | TimerFires nat int string

fun action_time :: "action \<Rightarrow> int" where
  "action_time (CaptureError now gen e ctx ty sev) = now"
| "action_time (TrackScreen now gen name path) = now"
| "action_time (SendScreenDuration now) = now"
| "action_time (TimerFires h now gen) = now"

fun perform :: "ResolvedConfig \<Rightarrow> action \<Rightarrow> sdk \<Rightarrow> sdk" where
  "perform cfg (CaptureError now gen e ctx ty sev) s = snd (captureError cfg now gen e ctx ty sev s)"
| "perform cfg (TrackScreen now gen name path) s = snd (trackScreen cfg now gen name path s)"
| "perform cfg (SendScreenDuration now) s = snd (sendScreenDuration cfg now s)"
| "perform cfg (TimerFires h now gen) s = fire cfg h now gen s"

definition run :: "ResolvedConfig \<Rightarrow> action list \<Rightarrow> sdk \<Rightarrow> sdk" where
  "run cfg acts s = fold (perform cfg) acts s"

text \<open>The timestamps of the rate window that are less than 60 seconds old at \<open>now\<close>.\<close>

definition rate_window :: "int \<Rightarrow> sdk \<Rightarrow> int list" where
  "rate_window now s = filter (\<lambda>t. now - t < RATE_LIMIT_WINDOW_MS) (errorTimestamps s)"

text \<open>The requests that an operation issues when it runs from the state \<open>s\<close>.\<close>

definition emitted :: "unit io \<Rightarrow> sdk \<Rightarrow> (string \<times> payload) list" where
  "emitted m s = drop (length (requests s)) (requests (snd (m s)))"

text \<open>The condition under which \<open>sendScreenDuration\<close> sends.\<close>

definition duration_due :: "int \<Rightarrow> sdk \<Rightarrow> bool" where
  "duration_due now s =
     (case currentScreenViewId s of
        None \<Rightarrow> False
      | Some vid \<Rightarrow> vid \<noteq> [] \<and> screenStartTime s \<noteq> 0 \<and> isReady s \<and>
          MIN_DURATION \<le> round_seconds (now - screenStartTime s))"


text \<open>The session id that \<open>getSessionId\<close> returns.\<close>

definition session_after :: "int \<Rightarrow> string \<Rightarrow> int \<Rightarrow> sdk \<Rightarrow> string" where
  "session_after now gen timeout s = (if now - sessionTimestamp s > timeout then gen else sessionId s)"

text \<open>
  Invariants of the timer table: handles in use are below the next handle; every
  pending eviction is for a key that is in the dedup set, and no key has two.
\<close>

definition timers_wf :: "sdk \<Rightarrow> bool" where
  "timers_wf s =
     ((\<forall>t \<in> set (timers s). fst t < nextTimerId s) \<and>
      (\<forall>h. screenDebounceTimer s = Some h \<longrightarrow> h < nextTimerId s))"

definition evict_keys :: "(nat \<times> int \<times> callback) list \<Rightarrow> int list" where
  "evict_keys ts = concat (map (\<lambda>t. case snd (snd t) of EvictHash k \<Rightarrow> [k] | _ \<Rightarrow> []) ts)"

definition dedup_inv :: "sdk \<Rightarrow> bool" where
  "dedup_inv s =
     (set (evict_keys (timers s)) \<subseteq> sentErrorHashes s \<and> distinct (evict_keys (timers s)))"

text \<open>The key \<open>k\<close> is in the dedup set and no eviction of it is due before \<open>D\<close>.\<close>

definition evict_guard :: "int \<Rightarrow> int \<Rightarrow> sdk \<Rightarrow> bool" where
  "evict_guard k D s =
     (k \<in> sentErrorHashes s \<and>
      (\<forall>t \<in> set (timers s). snd (snd t) = EvictHash k \<longrightarrow> D \<le> fst (snd t)))"

text \<open>The timer \<open>h\<close> is pending, due at \<open>D\<close>, and will evict \<open>k\<close>.\<close>

definition evict_pending :: "nat \<Rightarrow> int \<Rightarrow> int \<Rightarrow> sdk \<Rightarrow> bool" where
  "evict_pending h k D s =
     (find (\<lambda>t. fst t = h) (timers s) = Some (h, D, EvictHash k) \<and>
      h < nextTimerId s \<and> screenDebounceTimer s \<noteq> Some h)"

definition scenario_screen :: sdk where
  "scenario_screen = scenario_session\<lparr>currentScreenName := Some ''Home'',
     currentScreenPath := Some ''/Home'', currentScreenViewId := Some ''view'',
     screenStartTime := 1000, isFirstScreen := False\<rparr>"

text \<open>The effective path of \<open>trackScreen\<close>.\<close>

definition effective_path :: "string \<Rightarrow> string option \<Rightarrow> string" where
  "effective_path name path = (case path of None \<Rightarrow> ''/'' @ name | Some p \<Rightarrow> p)"

definition same_screen :: "string \<Rightarrow> string option \<Rightarrow> sdk \<Rightarrow> bool" where
  "same_screen name path s =
     (currentScreenName s = Some name \<and> currentScreenPath s = Some (effective_path name path))"

definition screen_delay :: "sdk \<Rightarrow> int" where
  "screen_delay s = (if isFirstScreen s then FIRST_SCREEN_DELAY else SUBSEQUENT_SCREEN_DELAY)"

text \<open>A client that has recorded ten captures at the times 0 to 9, and an error.\<close>

definition scenario_limited :: sdk where
  "scenario_limited = scenario_session\<lparr>errorTimestamps := [0, 1, 2, 3, 4, 5, 6, 7, 8, 9]\<rparr>"

definition scenario_error :: JsError where
  "scenario_error =
     \<lparr>err_name = ''TypeError'', err_message = ''x is undefined'', err_stack = Some ''at f''\<rparr>"

text \<open>Actions other than a capture.\<close>

fun no_capture :: "action \<Rightarrow> bool" where
  "no_capture (CaptureError now gen e ctx ty sev) = False"
| "no_capture a = True"

text \<open>
  The pending activations of a screen view, and the invariant of the debounce slot:
  the only activation that can be pending is the one whose handle the slot holds.
\<close>

fun is_activation :: "callback \<Rightarrow> bool" where
  "is_activation (ActivateScreen name path vid) = True"
| "is_activation (EvictHash k) = False"

definition activation_timers :: "sdk \<Rightarrow> (nat \<times> int \<times> callback) list" where
  "activation_timers s = filter (\<lambda>t. is_activation (snd (snd t))) (timers s)"

definition screen_inv :: "sdk \<Rightarrow> bool" where
  "screen_inv s =
     (\<forall>t \<in> set (timers s). is_activation (snd (snd t)) \<longrightarrow> screenDebounceTimer s = Some (fst t))"

section \<open>Flush as the event loop runs it\<close>

text \<open>
  A call of \<open>flush\<close> runs to the point where it waits for the sends of its batch
  (\<open>flush_call\<close>: the guard, the flag, the read of the queue, the requests of the batch);
  each handler continues when its send is settled (\<open>flush_settle\<close>); when all are
  settled the \<open>finally\<close> block runs (\<open>flush_finally\<close>). This is the loop seen from the
  flag: no call of the store reads or writes the flag, so here a call of the store
  completes within the step that makes it. The next section splits these steps at
  every \<open>await\<close>, for what is said about the queue.
\<close>

datatype flush_phase = Skipped | Finished | Awaiting "QueuedEvent list"

definition send_start :: "ResolvedConfig \<Rightarrow> QueuedEvent \<Rightarrow> sdk \<Rightarrow> sdk" where
  "send_start cfg event s =
     s\<lparr>requests := requests s @ [(apiUrl cfg @ endpoint event, data event)]\<rparr>"

definition flush_call :: "ResolvedConfig \<Rightarrow> sdk \<Rightarrow> flush_phase \<times> sdk" where
  "flush_call cfg s =
     (if flushing s then (Skipped, s)
      else
        case getQueue (s\<lparr>flushing := True\<rparr>) of
          (Inl e, s1) \<Rightarrow> (Finished, s1\<lparr>flushing := False\<rparr>)
        | (Inr queue, s1) \<Rightarrow>
            if length queue = 0 then (Finished, s1\<lparr>flushing := False\<rparr>)
            else (Awaiting (take 50 queue), fold (send_start cfg) (take 50 queue) s1))"

definition flush_settle :: "QueuedEvent \<Rightarrow> fetch_result \<Rightarrow> sdk \<Rightarrow> sdk" where
  "flush_settle event res s =
     snd (catch_ignore
            (if send_result res then removeEvent (event_id event)
             else if retryCount event < 3 then
               updateEvent (event\<lparr>retryCount := retryCount event + 1\<rparr>)
             else removeEvent (event_id event)) s)"

definition flush_finally :: "sdk \<Rightarrow> sdk" where
  "flush_finally s = s\<lparr>flushing := False\<rparr>"

text \<open>
  The steps of the event loop that matter to a flush: a call of \<open>flush\<close>, the settling
  of the send of one event of a running flush, and a \<open>sendOrQueue\<close> of the application
  running to its end. The state is paired with the flushes in progress, each with the
  events whose sends are not settled yet.
\<close>

datatype step =
    Call_flush
  | Settle nat QueuedEvent fetch_result
  | Send_or_queue int string string payload fetch_result

fun sched_step ::
  "ResolvedConfig \<Rightarrow> step \<Rightarrow> sdk \<times> QueuedEvent list list \<Rightarrow> sdk \<times> QueuedEvent list list" where
  "sched_step cfg Call_flush (s, running) =
     (case flush_call cfg s of
        (Awaiting batch, s') \<Rightarrow> (s', running @ [batch])
      | (Skipped, s') \<Rightarrow> (s', running)
      | (Finished, s') \<Rightarrow> (s', running))"
| "sched_step cfg (Settle i event res) (s, running) =
     (if i < length running \<and> event \<in> set (running ! i) then
        (if remove1 event (running ! i) = []
         then (flush_finally (flush_settle event res s), take i running @ drop (Suc i) running)
         else (flush_settle event res s, running[i := remove1 event (running ! i)]))
      else (s, running))"
| "sched_step cfg (Send_or_queue now gen ep d res) (s, running) =
     (snd (sendOrQueue cfg now gen ep d res s), running)"

definition sched_run ::
  "ResolvedConfig \<Rightarrow> step list \<Rightarrow> sdk \<times> QueuedEvent list list \<Rightarrow> sdk \<times> QueuedEvent list list" where
  "sched_run cfg steps st = fold (sched_step cfg) steps st"

text \<open>At most one flush is in progress, and the flag is set exactly while one is.\<close>

definition flush_inv :: "sdk \<times> QueuedEvent list list \<Rightarrow> bool" where
  "flush_inv st =
     (length (snd st) \<le> 1 \<and> (flushing (fst st) \<longleftrightarrow> snd st \<noteq> []) \<and> [] \<notin> set (snd st))"


text \<open>
  The flush whose sends settle in the order \<open>p\<close>, a rearrangement of the batch.
\<close>

definition flush_in_order ::
  "ResolvedConfig \<Rightarrow> (QueuedEvent \<Rightarrow> fetch_result) \<Rightarrow> QueuedEvent list \<Rightarrow> sdk \<Rightarrow> sdk" where
  "flush_in_order cfg net p s =
     (case flush_call cfg s of
        (Awaiting b, s1) \<Rightarrow> flush_finally (fold (\<lambda>e. flush_settle e (net e)) p s1)
      | (Skipped, s1) \<Rightarrow> s1
      | (Finished, s1) \<Rightarrow> s1)"

text \<open>The queue with the events of \<open>P\<close> settled and the others of the batch waiting.\<close>

definition settled_view ::
  "(QueuedEvent \<Rightarrow> fetch_result) \<Rightarrow> QueuedEvent set \<Rightarrow> QueuedEvent list \<Rightarrow> QueuedEvent list \<Rightarrow> QueuedEvent list" where
  "settled_view net P b rest =
     concat (map (\<lambda>x. if x \<in> P then retained net x else [x]) b) @ rest"

section \<open>The event loop at its suspension points\<close>

text \<open>
  Every \<open>await\<close> of \<open>fetch\<close> or of a call of the store is a point where the function
  is suspended and other code runs. The store serves its calls in the order in which
  they are made: a call takes effect when it is made (\<open>getItem\<close> reads, \<open>setItem\<close>
  writes, the script of faults moves on), and the function that awaits it continues in a
  later step of the loop.
\<close>

type_synonym read_outcome = "js_error + item option"

text \<open>What \<open>getQueue\<close> returns once its \<open>getItem\<close> has settled.\<close>

definition parse_queue :: "read_outcome \<Rightarrow> QueuedEvent list" where
  "parse_queue r =
     (case r of
        Inl e \<Rightarrow> []
      | Inr None \<Rightarrow> []
      | Inr (Some raw) \<Rightarrow>
          if raw = Text [] then []
          else (case JSON_parse raw of Inl e \<Rightarrow> [] | Inr q \<Rightarrow> q))"

text \<open>
  The read-modify-write cycles of the queue: \<open>removeEvent\<close>, \<open>updateEvent\<close>,
  \<open>enqueueEvent\<close> and \<open>pruneQueue\<close> read the queue, compute the new one from what they
  read and save it (\<open>updateEvent\<close> and \<open>pruneQueue\<close> save only when there is a change).
\<close>

datatype queue_op = Remove string | Update QueuedEvent | Append QueuedEvent | Prune int

fun apply_op :: "queue_op \<Rightarrow> QueuedEvent list \<Rightarrow> QueuedEvent list option" where
  "apply_op (Remove i) queue = Some (filter (\<lambda>e. event_id e \<noteq> i) queue)"
| "apply_op (Update event) queue =
     (let idx = findIndex (\<lambda>e. event_id e = event_id event) queue in
      if idx \<noteq> -1 then Some (queue[nat idx := event]) else None)"
| "apply_op (Append event) queue = Some (queue @ [event])"
| "apply_op (Prune maxSize) queue =
     (if int (length queue) > maxSize
      then Some (slice_from (int (length queue) - maxSize) queue) else None)"

text \<open>
  A cycle in progress waits for its read, holding what the read returned, or for its
  write. \<open>begin_op\<close> is the call of the method up to its first \<open>await\<close>; \<open>resume_op\<close>
  continues it after the awaited call, and gives \<open>None\<close> when the method returns.
\<close>

datatype pending = Read_pending queue_op read_outcome | Write_pending

definition begin_op :: "queue_op \<Rightarrow> sdk \<Rightarrow> pending \<times> sdk" where
  "begin_op qop s = (case getItem KEY_OFFLINE_QUEUE s of (r, s') \<Rightarrow> (Read_pending qop r, s'))"

fun resume_op :: "pending \<Rightarrow> sdk \<Rightarrow> pending option \<times> sdk" where
  "resume_op (Read_pending qop r) s =
     (case apply_op qop (parse_queue r) of
        None \<Rightarrow> (None, s)
      | Some queue \<Rightarrow> (Some Write_pending, snd (saveQueue queue s)))"
| "resume_op Write_pending s = (None, s)"

text \<open>
  A handler of the batch of a flush waits for its \<open>fetch\<close>, then runs one cycle on the
  queue, then has returned. A call of \<open>flush\<close> waits for the read of the queue, then
  for all its handlers. A call of \<open>sendOrQueue\<close> waits for its \<open>fetch\<close>, then runs
  \<open>enqueueEvent\<close>, then \<open>pruneQueue\<close>.
\<close>

datatype handler = Sending QueuedEvent | Updating pending | Returned

datatype task =
    Flush_reading read_outcome
  | Flush_waiting "handler list"
  | Soq_sending string payload
  | Soq_enqueuing pending
  | Soq_pruning pending
  | Ended

text \<open>
  The events of the loop: \<open>flush\<close> is called; \<open>sendOrQueue\<close> is called with an endpoint
  and a body; the \<open>fetch\<close> of handler \<open>j\<close> of the flush \<open>i\<close> settles, \<open>net e\<close> being the
  answer of the network to the POST of the event \<open>e\<close>; the \<open>fetch\<close> of the
  \<open>sendOrQueue\<close> \<open>i\<close> settles, with the clock and the id that \<open>generateId\<close> gives; the
  store call that task \<open>i\<close>, or handler \<open>j\<close> of the flush \<open>i\<close>, waits for settles.
\<close>

datatype loop_event =
    Flush_called
  | SendOrQueue_called string payload
  | Handler_fetch_settled nat nat "QueuedEvent \<Rightarrow> fetch_result"
  | Soq_fetch_settled nat fetch_result int string
  | Store_settled nat
  | Handler_store_settled nat nat

text \<open>The cycle that a handler runs when the send of its event has settled.\<close>

definition handler_op :: "(QueuedEvent \<Rightarrow> fetch_result) \<Rightarrow> QueuedEvent \<Rightarrow> queue_op" where
  "handler_op net event =
     (if send_result (net event) then Remove (event_id event)
      else if retryCount event < 3 then Update (event\<lparr>retryCount := retryCount event + 1\<rparr>)
      else Remove (event_id event))"

fun handler_fetch :: "(QueuedEvent \<Rightarrow> fetch_result) \<Rightarrow> handler \<Rightarrow> sdk \<Rightarrow> handler \<times> sdk" where
  "handler_fetch net (Sending event) s =
     (case begin_op (handler_op net event) s of (p, s') \<Rightarrow> (Updating p, s'))"
| "handler_fetch net h s = (h, s)"

fun handler_store :: "handler \<Rightarrow> sdk \<Rightarrow> handler \<times> sdk" where
  "handler_store (Updating p) s =
     (case resume_op p s of
        (None, s') \<Rightarrow> (Returned, s')
      | (Some p', s') \<Rightarrow> (Updating p', s'))"
| "handler_store h s = (h, s)"

text \<open>\<open>Promise.allSettled\<close> resolves when every handler has returned; then \<open>finally\<close> runs.\<close>

definition all_returned :: "handler list \<Rightarrow> bool" where
  "all_returned hs = list_all (\<lambda>h. h = Returned) hs"

definition await_handlers :: "handler list \<Rightarrow> sdk \<Rightarrow> task \<times> sdk" where
  "await_handlers hs s =
     (if all_returned hs then (Ended, s\<lparr>flushing := False\<rparr>) else (Flush_waiting hs, s))"

definition queued :: "int \<Rightarrow> string \<Rightarrow> string \<Rightarrow> payload \<Rightarrow> QueuedEvent" where
  "queued now gen ep d =
     \<lparr>event_id = gen, endpoint = ep, data = d, timestamp = now, retryCount = 0\<rparr>"

fun task_store :: "ResolvedConfig \<Rightarrow> task \<Rightarrow> sdk \<Rightarrow> task \<times> sdk" where
  "task_store cfg (Flush_reading r) s =
     (let queue = parse_queue r in
      if length queue = 0 then (Ended, s\<lparr>flushing := False\<rparr>)
      else (Flush_waiting (map Sending (take 50 queue)), fold (send_start cfg) (take 50 queue) s))"
| "task_store cfg (Soq_enqueuing p) s =
     (case resume_op p s of
        (Some p', s') \<Rightarrow> (Soq_enqueuing p', s')
      | (None, s') \<Rightarrow>
          (case begin_op (Prune (maxQueueSize cfg)) s' of (p', s'') \<Rightarrow> (Soq_pruning p', s'')))"
| "task_store cfg (Soq_pruning p) s =
     (case resume_op p s of
        (Some p', s') \<Rightarrow> (Soq_pruning p', s')
      | (None, s') \<Rightarrow> (Ended, s'))"
| "task_store cfg t s = (t, s)"

fun loop_step :: "ResolvedConfig \<Rightarrow> loop_event \<Rightarrow> sdk \<times> task list \<Rightarrow> sdk \<times> task list" where
  "loop_step cfg Flush_called (s, ts) =
     (if flushing s then (s, ts)
      else (case getItem KEY_OFFLINE_QUEUE (s\<lparr>flushing := True\<rparr>) of
              (r, s') \<Rightarrow> (s', ts @ [Flush_reading r])))"
| "loop_step cfg (SendOrQueue_called ep d) (s, ts) =
     (s\<lparr>requests := requests s @ [(apiUrl cfg @ ep, d)]\<rparr>, ts @ [Soq_sending ep d])"
| "loop_step cfg (Handler_fetch_settled i j net) (s, ts) =
     (if i < length ts then
        (case ts ! i of
           Flush_waiting hs \<Rightarrow>
             if j < length hs then
               (case handler_fetch net (hs ! j) s of
                  (h, s') \<Rightarrow> (s', ts[i := Flush_waiting (hs[j := h])]))
             else (s, ts)
         | _ \<Rightarrow> (s, ts))
      else (s, ts))"
| "loop_step cfg (Soq_fetch_settled i res now gen) (s, ts) =
     (if i < length ts then
        (case ts ! i of
           Soq_sending ep d \<Rightarrow>
             if send_result res then (s, ts[i := Ended])
             else (case begin_op (Append (queued now gen ep d)) s of
                     (p, s') \<Rightarrow> (s', ts[i := Soq_enqueuing p]))
         | _ \<Rightarrow> (s, ts))
      else (s, ts))"
| "loop_step cfg (Store_settled i) (s, ts) =
     (if i < length ts then
        (case task_store cfg (ts ! i) s of (t, s') \<Rightarrow> (s', ts[i := t]))
      else (s, ts))"
| "loop_step cfg (Handler_store_settled i j) (s, ts) =
     (if i < length ts then
        (case ts ! i of
           Flush_waiting hs \<Rightarrow>
             if j < length hs then
               (case handler_store (hs ! j) s of
                  (h, s') \<Rightarrow>
                    (case await_handlers (hs[j := h]) s' of (t, s'') \<Rightarrow> (s'', ts[i := t])))
             else (s, ts)
         | _ \<Rightarrow> (s, ts))
      else (s, ts))"

definition loop_run ::
  "ResolvedConfig \<Rightarrow> loop_event list \<Rightarrow> sdk \<times> task list \<Rightarrow> sdk \<times> task list" where
  "loop_run cfg evs st = fold (loop_step cfg) evs st"











text \<open>
  The calls of \<open>flush\<close> in progress among the tasks, and the invariant of the flag at
  the suspension points: at most one flush is in progress, and the flag is set exactly
  while one is.
\<close>

fun is_flush :: "task \<Rightarrow> bool" where
  "is_flush (Flush_reading r) = True"
| "is_flush (Flush_waiting hs) = True"
| "is_flush t = False"

definition flushes :: "task list \<Rightarrow> nat" where
  "flushes ts = length (filter is_flush ts)"

definition loop_inv :: "sdk \<times> task list \<Rightarrow> bool" where
  "loop_inv st = (flushes (snd st) \<le> 1 \<and> (flushing (fst st) \<longleftrightarrow> flushes (snd st) = 1))"

section \<open>Properties of the storage\<close>

lemma getItem_fails:
  "next_call_fails s \<Longrightarrow> getItem k s = (Inl StorageError, consume_fault s)"
  by (simp add: getItem_def)

lemma setItem_fails:
  "next_call_fails s \<Longrightarrow> setItem k v s = (Inl StorageError, consume_fault s)"
  by (simp add: setItem_def)

lemma multiSet_fails:
  "next_call_fails s \<Longrightarrow> multiSet kvs s = (Inl StorageError, consume_fault s)"
  by (simp add: multiSet_def)

lemma catch_ignore_Inr: "\<exists>s'. catch_ignore m s = (Inr (), s')"
  by (cases "m s") (auto simp: catch_ignore_def try_catch_def ret_def split: sum.splits)

lemma getQueue_Inr: "\<exists>q s'. getQueue s = (Inr q, s')"
  by (auto simp: getQueue_def try_catch_def and_then_def ret_def throw_def getItem_def
      split: sum.splits option.splits prod.splits if_splits)

lemma saveQueue_Inr: "\<exists>s'. saveQueue q s = (Inr (), s')"
  by (auto simp: saveQueue_def try_catch_def ret_def split: sum.splits prod.splits)

lemma setVisitorId_Inr: "\<exists>s'. setVisitorId v s = (Inr (), s')"
  using catch_ignore_Inr [of "setItem KEY_VISITOR_ID (Text v)" "s\<lparr>visitorId := v\<rparr>"]
  by (auto simp: setVisitorId_def and_then_def modify_def)

lemma getSessionId_closed:
  "getSessionId now gen timeout s =
     (let rotate = (now - sessionTimestamp s > timeout);
          sid = (if rotate then gen else sessionId s);
          ok = (\<not> next_call_fails s)
      in (Inr sid,
          s\<lparr>sessionId := sid, sessionTimestamp := now,
            disk := (if \<not> ok then disk s
                     else if rotate
                       then (disk s)(KEY_SESSION_ID \<mapsto> Text gen, KEY_SESSION_TIMESTAMP \<mapsto> Num now)
                       else (disk s)(KEY_SESSION_TIMESTAMP \<mapsto> Num now)),
            faults := tl (faults s)\<rparr>))"
  by (simp add: getSessionId_def and_then_def modify_def catch_ignore_def try_catch_def
      ret_def multiSet_def setItem_def next_call_fails_def consume_fault_def Let_def)

section \<open>Properties of the queue and of flush\<close>

lemma consume_fault_none: "faults s = [] \<Longrightarrow> consume_fault s = s"
  by (cases s) (simp add: consume_fault_def)

lemma no_fault: "faults s = [] \<Longrightarrow> \<not> next_call_fails s"
  by (simp add: next_call_fails_def)


lemma getQueue_ok: "faults s = [] \<Longrightarrow> getQueue s = (Inr (queue_of s), s)"
  by (auto simp: getQueue_def try_catch_def and_then_def getItem_def no_fault consume_fault_none
      ret_def throw_def JSON_parse_def queue_of_def split: option.splits item.splits)

lemma saveQueue_ok: "faults s = [] \<Longrightarrow> saveQueue q s = (Inr (), with_queue q s)"
  by (simp add: saveQueue_def try_catch_def setItem_def no_fault consume_fault_none with_queue_def)

lemma with_queue_simps [simp]:
  "queue_of (with_queue q s) = q"
  "faults (with_queue q s) = faults s"
  "flushing (with_queue q s) = flushing s"
  "requests (with_queue q s) = requests s"
  "with_queue q (with_queue q' s) = with_queue q s"
  by (simp_all add: with_queue_def queue_of_def)

lemma send_closed:
  "send cfg ep d res s = (Inr (send_result res), s\<lparr>requests := requests s @ [(apiUrl cfg @ ep, d)]\<rparr>)"
  by (simp add: send_def try_catch_def fetch_def send_result_def ret_def split: fetch_result.splits)

lemma removeEvent_ok:
  "faults s = [] \<Longrightarrow> removeEvent i s = (Inr (), with_queue (filter (\<lambda>e. event_id e \<noteq> i) (queue_of s)) s)"
  by (simp add: removeEvent_def and_then_def getQueue_ok saveQueue_ok)

lemma updateEvent_ok:
  "faults s = [] \<Longrightarrow> updateEvent e s =
     (Inr (), (let idx = findIndex (\<lambda>x. event_id x = event_id e) (queue_of s) in
               if idx \<noteq> -1 then with_queue ((queue_of s)[nat idx := e]) s else s))"
  by (simp add: updateEvent_def and_then_def getQueue_ok saveQueue_ok Let_def ret_def)


lemma findIndex_prefix:
  "\<forall>x \<in> set pre. \<not> P x \<Longrightarrow> P e \<Longrightarrow> findIndex P (pre @ e # xs) = int (length pre)"
  by (induction pre) (auto simp: Let_def)

lemma handle_q_step:
  assumes "distinct (map event_id (pre @ e # rest))"
  shows "handle_q net e (pre @ e # rest) = pre @ retained net e @ rest"
proof -
  from assms have "event_id e \<notin> event_id ` set pre" "event_id e \<notin> event_id ` set rest"
    by auto
  then have pre: "\<forall>x \<in> set pre. event_id x \<noteq> event_id e"
    and rest: "\<forall>x \<in> set rest. event_id x \<noteq> event_id e"
    by (auto simp: image_iff)
  have f: "filter (\<lambda>x. event_id x \<noteq> event_id e) pre = pre"
    "filter (\<lambda>x. event_id x \<noteq> event_id e) rest = rest"
    using pre rest by (simp_all add: filter_id_conv)
  have i: "findIndex (\<lambda>x. event_id x = event_id e) (pre @ e # rest) = int (length pre)"
    using pre by (intro findIndex_prefix) auto
  show ?thesis
    by (simp add: handle_q_def retained_def f i)
qed


lemma fold_handle_q:
  "distinct (map event_id (pre @ b @ rest)) \<Longrightarrow>
   fold (handle_q net) b (pre @ b @ rest) = pre @ concat (map (retained net) b) @ rest"
proof (induction b arbitrary: pre)
  case Nil
  then show ?case by simp
next
  case (Cons e b)
  have step: "handle_q net e (pre @ e # b @ rest) = pre @ retained net e @ b @ rest"
    using Cons.prems handle_q_step [of pre e "b @ rest" net] by simp
  have d: "distinct (map event_id ((pre @ retained net e) @ b @ rest))"
    using Cons.prems by (auto simp: retained_def)
  show ?case
    using Cons.IH [OF d] step by simp
qed


lemma queue_of_requests [simp]: "queue_of (s\<lparr>requests := r\<rparr>) = queue_of s"
  by (simp add: queue_of_def)






lemma flush_handler_closed:
  assumes "faults s = []"
  shows "flush_handler cfg e (net e) s =
    (let s1 = s\<lparr>requests := requests s @ [(apiUrl cfg @ endpoint e, data e)]\<rparr> in
     if send_result (net e) \<or> \<not> retryCount e < 3
     then (Inr (), with_queue (filter (\<lambda>x. event_id x \<noteq> event_id e) (queue_of s)) s1)
     else if findIndex (\<lambda>x. event_id x = event_id e) (queue_of s) \<noteq> -1
     then (Inr (), with_queue ((queue_of s)
              [nat (findIndex (\<lambda>x. event_id x = event_id e) (queue_of s)) :=
                 e\<lparr>retryCount := retryCount e + 1\<rparr>]) s1)
     else (Inr (), s1))"
proof -
  define s1 where "s1 = s\<lparr>requests := requests s @ [(apiUrl cfg @ endpoint e, data e)]\<rparr>"
  have f1: "faults s1 = []" and q1: "queue_of s1 = queue_of s"
    using assms by (simp_all add: s1_def)
  have snd: "send cfg (endpoint e) (data e) (net e) s = (Inr (send_result (net e)), s1)"
    by (simp add: send_closed s1_def)
  show ?thesis
    unfolding flush_handler_def and_then_def snd Let_def s1_def [symmetric]
    by (simp add: removeEvent_ok [OF f1] updateEvent_ok [OF f1] q1 Let_def ret_def)
qed

lemma flush_handler_ok:
  assumes "faults s = []"
  shows "fst (flush_handler cfg e (net e) s) = Inr ()"
    and "queue_of (snd (flush_handler cfg e (net e) s)) = handle_q net e (queue_of s)"
    and "faults (snd (flush_handler cfg e (net e) s)) = []"
    and "flushing (snd (flush_handler cfg e (net e) s)) = flushing s"
    and "requests (snd (flush_handler cfg e (net e) s)) =
           requests s @ [(apiUrl cfg @ endpoint e, data e)]"
  using assms
  by (auto simp: flush_handler_closed handle_q_def Let_def)

lemma catch_ignore_Inr_eq: "fst (m s) = Inr () \<Longrightarrow> catch_ignore m s = m s"
  by (cases "m s") (auto simp: catch_ignore_def try_catch_def)

lemma allSettled_ok:
  assumes "faults s = []"
  shows "fst (allSettled (map (\<lambda>e. flush_handler cfg e (net e)) b) s) = Inr () \<and>
         queue_of (snd (allSettled (map (\<lambda>e. flush_handler cfg e (net e)) b) s)) =
           fold (handle_q net) b (queue_of s) \<and>
         faults (snd (allSettled (map (\<lambda>e. flush_handler cfg e (net e)) b) s)) = [] \<and>
         flushing (snd (allSettled (map (\<lambda>e. flush_handler cfg e (net e)) b) s)) = flushing s \<and>
         requests (snd (allSettled (map (\<lambda>e. flush_handler cfg e (net e)) b) s)) =
           requests s @ map (\<lambda>e. (apiUrl cfg @ endpoint e, data e)) b"
  using assms
proof (induction b arbitrary: s)
  case Nil
  then show ?case by (simp add: ret_def)
next
  case (Cons e b)
  obtain s1 where s1: "flush_handler cfg e (net e) s = (Inr (), s1)"
    using flush_handler_ok(1) [OF Cons.prems, of cfg e net]
    by (cases "flush_handler cfg e (net e) s") auto
  have f1: "faults s1 = []" and q1: "queue_of s1 = handle_q net e (queue_of s)"
    and fl1: "flushing s1 = flushing s"
    and r1: "requests s1 = requests s @ [(apiUrl cfg @ endpoint e, data e)]"
    using flush_handler_ok(2-5) [OF Cons.prems, of cfg e net] s1 by simp_all
  have c: "catch_ignore (flush_handler cfg e (net e)) s = (Inr (), s1)"
    using catch_ignore_Inr_eq [of "flush_handler cfg e (net e)" s] s1 by simp
  show ?case
    using Cons.IH [OF f1] by (simp add: and_then_def c q1 fl1 r1)
qed


lemma queue_of_flushing [simp]: "queue_of (s\<lparr>flushing := b\<rparr>) = queue_of s"
  by (simp add: queue_of_def)

lemma flush_skip: "flushing s \<Longrightarrow> flush cfg net s = (Inr (), s)"
  by (simp add: flush_def ret_def)

lemma flush_ok:
  assumes "faults s = []" "\<not> flushing s"
  shows "fst (flush cfg net s) = Inr () \<and>
         queue_of (snd (flush cfg net s)) = fold (handle_q net) (take 50 (queue_of s)) (queue_of s) \<and>
         faults (snd (flush cfg net s)) = [] \<and>
         \<not> flushing (snd (flush cfg net s)) \<and>
         requests (snd (flush cfg net s)) =
           requests s @ map (\<lambda>e. (apiUrl cfg @ endpoint e, data e)) (take 50 (queue_of s))"
proof -
  define s0 where "s0 = s\<lparr>flushing := True\<rparr>"
  have f0: "faults s0 = []" and q0: "queue_of s0 = queue_of s" and r0: "requests s0 = requests s"
    using assms by (simp_all add: s0_def)
  define m where "m = allSettled (map (\<lambda>e. flush_handler cfg e (net e)) (take 50 (queue_of s)))"
  have fl: "flush cfg net s =
      (if queue_of s = [] then (Inr (), s0\<lparr>flushing := False\<rparr>)
       else (fst (m s0), (snd (m s0))\<lparr>flushing := False\<rparr>))"
    using assms(2)
    by (simp add: flush_def try_finally_def and_then_def getQueue_ok [OF f0] q0 ret_def
        s0_def [symmetric] m_def split: prod.splits)
  show ?thesis
  proof (cases "queue_of s = []")
    case True
    then show ?thesis by (simp add: fl f0 q0 r0)
  next
    case False
    then show ?thesis
      using allSettled_ok [OF f0, of cfg net "take 50 (queue_of s)"]
      unfolding m_def [symmetric]
      by (simp add: fl q0 r0)
  qed
qed

lemma flush_queue:
  assumes "faults s = []" "\<not> flushing s" "distinct (map event_id (queue_of s))"
  shows "queue_of (snd (flush cfg net s)) =
           concat (map (retained net) (take 50 (queue_of s))) @ drop 50 (queue_of s)"
proof -
  have "distinct (map event_id ([] @ take 50 (queue_of s) @ drop 50 (queue_of s)))"
    using assms(3) by simp
  from fold_handle_q [OF this, of net] show ?thesis
    using flush_ok [OF assms(1,2), of cfg net] by simp
qed







lemma retained_ids_map: "map event_id (retained net e) = (if retained net e = [] then [] else [event_id e])"
  by (simp add: retained_def)






lemma catch_ignore_snd: "snd (catch_ignore m s) = snd (m s) \<and> fst (catch_ignore m s) = Inr ()"
  by (cases "m s") (auto simp: catch_ignore_def try_catch_def ret_def split: sum.splits)

subsection \<open>The order in which the sends of a batch settle\<close>

lemma concat_same_ids_distinct:
  assumes "\<And>x. map event_id (f x) = [] \<or> map event_id (f x) = [event_id x]"
  shows "distinct (map event_id (b @ rest)) \<Longrightarrow> distinct (map event_id (concat (map f b) @ rest))"
proof (induction b)
  case Nil
  then show ?case by simp
next
  case (Cons e b)
  have sub: "set (map event_id (concat (map f b))) \<subseteq> event_id ` set b"
  proof (induction b)
    case Nil
    then show ?case by simp
  next
    case (Cons y ys)
    then show ?case using assms [of y] by auto
  qed
  from Cons have d: "distinct (map event_id (concat (map f b) @ rest))"
    and n: "event_id e \<notin> event_id ` set b" "event_id e \<notin> event_id ` set rest"
    by auto
  have "set (map event_id (concat (map f b) @ rest)) \<subseteq> event_id ` set b \<union> event_id ` set rest"
    using sub by auto
  with n have notin: "event_id e \<notin> set (map event_id (concat (map f b) @ rest))"
    by blast
  have split: "map event_id (concat (map f (e # b)) @ rest) =
      map event_id (f e) @ map event_id (concat (map f b) @ rest)"
    by simp
  from assms [of e] show ?case
  proof
    assume "map event_id (f e) = []"
    with d show ?thesis unfolding split by simp
  next
    assume "map event_id (f e) = [event_id e]"
    with d notin show ?thesis unfolding split by simp
  qed
qed

lemma settled_view_distinct:
  "distinct (map event_id (b @ rest)) \<Longrightarrow> distinct (map event_id (settled_view net P b rest))"
  unfolding settled_view_def
  by (rule concat_same_ids_distinct) (simp add: retained_ids_map)

lemma settled_view_step:
  assumes d: "distinct (map event_id (b @ rest))" and e: "e \<in> set b" "e \<notin> P"
  shows "handle_q net e (settled_view net P b rest) = settled_view net (insert e P) b rest"
proof -
  from e(1) obtain b1 b2 where b: "b = b1 @ e # b2"
    by (auto simp: in_set_conv_decomp)
  have n1: "e \<notin> set b1" and n2: "e \<notin> set b2"
    using d unfolding b by auto
  let ?f = "\<lambda>x. if x \<in> P then retained net x else [x]"
  let ?g = "\<lambda>x. if x \<in> insert e P then retained net x else [x]"
  have m1: "map ?g b1 = map ?f b1" and m2: "map ?g b2 = map ?f b2"
    using n1 n2 by (auto intro: map_cong)
  have v: "settled_view net P b rest =
      concat (map ?f b1) @ e # (concat (map ?f b2) @ rest)"
    using e(2) by (simp add: settled_view_def b)
  have w: "settled_view net (insert e P) b rest =
      concat (map ?g b1) @ retained net e @ (concat (map ?g b2) @ rest)"
    unfolding settled_view_def b by simp
  have "distinct (map event_id (settled_view net P b rest))"
    by (rule settled_view_distinct [OF d])
  then have "handle_q net e (concat (map ?f b1) @ e # (concat (map ?f b2) @ rest)) =
      concat (map ?f b1) @ retained net e @ (concat (map ?f b2) @ rest)"
    unfolding v by (rule handle_q_step)
  then show ?thesis
    unfolding v w m1 m2 .
qed

lemma fold_handle_q_any_order:
  assumes d: "distinct (map event_id (b @ rest))"
  shows "distinct p \<Longrightarrow> set p \<subseteq> set b - P \<Longrightarrow>
         fold (handle_q net) p (settled_view net P b rest) = settled_view net (P \<union> set p) b rest"
proof (induction p arbitrary: P)
  case Nil
  then show ?case by simp
next
  case (Cons e p)
  have "handle_q net e (settled_view net P b rest) = settled_view net (insert e P) b rest"
    using Cons.prems by (intro settled_view_step [OF d]) auto
  moreover have "fold (handle_q net) p (settled_view net (insert e P) b rest) =
      settled_view net (insert e P \<union> set p) b rest"
    using Cons.prems by (intro Cons.IH) auto
  ultimately show ?case by simp
qed

lemma settled_view_all: "set b \<subseteq> P \<Longrightarrow> settled_view net P b rest = concat (map (retained net) b) @ rest"
proof -
  assume "set b \<subseteq> P"
  then have "map (\<lambda>x. if x \<in> P then retained net x else [x]) b = map (retained net) b"
    by (intro map_cong) auto
  then show ?thesis unfolding settled_view_def by (rule arg_cong2 [where f = "\<lambda>x y. concat x @ y"]) simp
qed

lemma settled_view_none: "settled_view net {} b rest = b @ rest"
  by (induction b) (simp_all add: settled_view_def)

lemma flush_settle_ok:
  assumes "faults s = []"
  shows "queue_of (flush_settle e (net e) s) = handle_q net e (queue_of s) \<and>
         faults (flush_settle e (net e) s) = []"
proof -
  have "\<exists>s'. saveQueue q s = (Inr (), s')" for q
    by (rule saveQueue_Inr)
  show ?thesis
    using assms
    by (simp add: flush_settle_def catch_ignore_snd removeEvent_ok updateEvent_ok handle_q_def Let_def)
qed

lemma fold_flush_settle_ok:
  assumes "faults s = []"
  shows "queue_of (fold (\<lambda>e. flush_settle e (net e)) p s) = fold (handle_q net) p (queue_of s) \<and>
         faults (fold (\<lambda>e. flush_settle e (net e)) p s) = []"
  using assms
proof (induction p arbitrary: s)
  case Nil
  then show ?case by simp
next
  case (Cons e p)
  from flush_settle_ok [OF Cons.prems, of e net] Cons.IH [of "flush_settle e (net e) s"]
  show ?case by simp
qed

lemma queue_of_send_start: "queue_of (fold (send_start cfg) b s) = queue_of s \<and>
    faults (fold (send_start cfg) b s) = faults s"
  by (induction b arbitrary: s) (simp_all add: send_start_def)

text \<open>
  The sends of a batch are started together and settle in any order. Whatever the
  order, the queue after the flush is the one of \<open>flush\<close>, which settles them in the
  order of the batch.
\<close>

lemma flush_order_irrelevant:
  assumes "faults s = []" "\<not> flushing s" "distinct (map event_id (queue_of s))"
    and "distinct p" "set p = set (take 50 (queue_of s))"
  shows "queue_of (flush_in_order cfg net p s) = queue_of (snd (flush cfg net s))"
proof (cases "queue_of s = []")
  case True
  then show ?thesis
    using assms(1,2)
    by (simp add: flush_in_order_def flush_call_def getQueue_ok flush_queue [OF assms(1-3)])
next
  case False
  let ?q = "queue_of s" and ?s0 = "s\<lparr>flushing := True\<rparr>"
  let ?s1 = "fold (send_start cfg) (take 50 ?q) ?s0"
  have f0: "faults ?s0 = []" using assms(1) by simp
  have c: "flush_call cfg s = (Awaiting (take 50 ?q), ?s1)"
    using assms(2) False by (simp add: flush_call_def getQueue_ok [OF f0])
  have s1: "queue_of ?s1 = ?q" "faults ?s1 = []"
    using queue_of_send_start [of cfg "take 50 ?q" ?s0] assms(1) by simp_all
  have d: "distinct (map event_id (take 50 ?q @ drop 50 ?q))"
    using assms(3) by simp
  have "queue_of (flush_in_order cfg net p s) = fold (handle_q net) p ?q"
    using fold_flush_settle_ok [OF s1(2), of net p]
    by (simp add: flush_in_order_def c flush_finally_def s1)
  also have "\<dots> = fold (handle_q net) p (settled_view net {} (take 50 ?q) (drop 50 ?q))"
    by (simp add: settled_view_none)
  also have "\<dots> = settled_view net ({} \<union> set p) (take 50 ?q) (drop 50 ?q)"
    using assms(4,5) by (intro fold_handle_q_any_order [OF d]) auto
  also have "\<dots> = concat (map (retained net) (take 50 ?q)) @ drop 50 ?q"
    using assms(5) by (intro settled_view_all) simp
  finally show ?thesis
    by (simp add: flush_queue [OF assms(1-3)])
qed

subsection \<open>The retry policy\<close>










section \<open>Sessions\<close>

text \<open>
  C6. A session touch with timeout \<open>T\<close>: when more than \<open>T\<close> has passed since the
  stored last activity, the generated id becomes the session id and is returned, and
  the timestamp is set to now; when at most \<open>T\<close> has passed, the same session id is
  returned and the timestamp is refreshed to now.
\<close>

theorem getSessionId_rotation:
  assumes "getSessionId now gen T s = (r, s')"
  shows "(T < now - sessionTimestamp s \<longrightarrow>
            r = Inr gen \<and> sessionId s' = gen \<and> sessionTimestamp s' = now) \<and>
         (now - sessionTimestamp s \<le> T \<longrightarrow>
            r = Inr (sessionId s) \<and> sessionId s' = sessionId s \<and> sessionTimestamp s' = now)"
  using assms by (auto simp: getSessionId_closed Let_def)

theorem getSessionId_rotation_witness:
  "fst (getSessionId (1000 + 1800000 + 1) ''new'' 1800000 scenario_session) = Inr ''new'' \<and>
   sessionId (snd (getSessionId (1000 + 1800000 + 1) ''new'' 1800000 scenario_session)) = ''new'' \<and>
   sessionTimestamp (snd (getSessionId (1000 + 1800000 + 1) ''new'' 1800000 scenario_session)) = 1801001 \<and>
   fst (getSessionId (1000 + 1800000 - 1) ''new'' 1800000 scenario_session) = Inr ''old'' \<and>
   sessionId (snd (getSessionId (1000 + 1800000 - 1) ''new'' 1800000 scenario_session)) = ''old'' \<and>
   sessionTimestamp (snd (getSessionId (1000 + 1800000 - 1) ''new'' 1800000 scenario_session)) = 1800999"
proof -
  have s: "sessionTimestamp scenario_session = 1000" "sessionId scenario_session = ''old''"
    by (simp_all add: scenario_session_def fresh_sdk_def)
  have a: "getSessionId (1000 + 1800000 + 1) ''new'' 1800000 scenario_session =
     (fst (getSessionId (1000 + 1800000 + 1) ''new'' 1800000 scenario_session),
      snd (getSessionId (1000 + 1800000 + 1) ''new'' 1800000 scenario_session))"
    and b: "getSessionId (1000 + 1800000 - 1) ''new'' 1800000 scenario_session =
     (fst (getSessionId (1000 + 1800000 - 1) ''new'' 1800000 scenario_session),
      snd (getSessionId (1000 + 1800000 - 1) ''new'' 1800000 scenario_session))"
    by simp_all
  from getSessionId_rotation [OF a] getSessionId_rotation [OF b] show ?thesis
    by (simp add: s)
qed

section \<open>Failures of the store\<close>

lemma getQueue_unparsable:
  assumes "\<not> next_call_fails s" "disk s KEY_OFFLINE_QUEUE = Some r" "JSON_parse r = Inl e"
  shows "getQueue s = (Inr [], consume_fault s)"
  using assms
  by (simp add: getQueue_def try_catch_def and_then_def getItem_def ret_def throw_def)

text \<open>
  C7. When the call of the key-value store inside \<open>getQueue\<close>, \<open>saveQueue\<close>,
  \<open>setVisitorId\<close> or \<open>getSessionId\<close> fails, the operation does not throw: it returns
  its result from memory (\<open>getQueue\<close> the empty list, \<open>getSessionId\<close> the session id
  held in memory, \<open>setVisitorId\<close> keeps the visitor id in memory) and leaves the store
  as it was.
\<close>

theorem storage_failure_swallowed:
  assumes "next_call_fails s"
  shows "getQueue s = (Inr [], consume_fault s) \<and>
         saveQueue q s = (Inr (), consume_fault s) \<and>
         setVisitorId v s = (Inr (), consume_fault (s\<lparr>visitorId := v\<rparr>)) \<and>
         getSessionId now gen T s =
           (Inr (if T < now - sessionTimestamp s then gen else sessionId s),
            consume_fault
              (s\<lparr>sessionId := (if T < now - sessionTimestamp s then gen else sessionId s),
                 sessionTimestamp := now\<rparr>))"
proof -
  have g: "getQueue s = (Inr [], consume_fault s)"
    using assms by (simp add: getQueue_def try_catch_def and_then_def getItem_fails ret_def)
  have sv: "saveQueue q s = (Inr (), consume_fault s)"
    using assms by (simp add: saveQueue_def try_catch_def setItem_fails ret_def)
  have nv: "next_call_fails (s\<lparr>visitorId := v\<rparr>)"
    using assms by (simp add: next_call_fails_def)
  have v: "setVisitorId v s = (Inr (), consume_fault (s\<lparr>visitorId := v\<rparr>))"
    by (simp add: setVisitorId_def and_then_def modify_def catch_ignore_def try_catch_def
        setItem_fails [OF nv] ret_def)
  have i: "getSessionId now gen T s =
           (Inr (if T < now - sessionTimestamp s then gen else sessionId s),
            consume_fault
              (s\<lparr>sessionId := (if T < now - sessionTimestamp s then gen else sessionId s),
                 sessionTimestamp := now\<rparr>))"
    using assms by (simp add: getSessionId_closed Let_def consume_fault_def)
  from g sv v i show ?thesis by simp
qed

theorem storage_failure_swallowed_witness:
  "next_call_fails (with_queue [scenario_event ''A'' 0] (scenario_session\<lparr>faults := [True]\<rparr>)) \<and>
   fst (getQueue (with_queue [scenario_event ''A'' 0] (scenario_session\<lparr>faults := [True]\<rparr>))) = Inr [] \<and>
   fst (saveQueue [] (with_queue [scenario_event ''A'' 0] (scenario_session\<lparr>faults := [True]\<rparr>))) = Inr () \<and>
   queue_of (snd (saveQueue [] (with_queue [scenario_event ''A'' 0] (scenario_session\<lparr>faults := [True]\<rparr>))))
     = [scenario_event ''A'' 0] \<and>
   fst (setVisitorId ''merged'' (with_queue [scenario_event ''A'' 0] (scenario_session\<lparr>faults := [True]\<rparr>)))
     = Inr () \<and>
   visitorId (snd (setVisitorId ''merged'' (with_queue [scenario_event ''A'' 0] (scenario_session\<lparr>faults := [True]\<rparr>))))
     = ''merged'' \<and>
   disk (snd (setVisitorId ''merged'' (with_queue [scenario_event ''A'' 0] (scenario_session\<lparr>faults := [True]\<rparr>))))
     KEY_VISITOR_ID = None \<and>
   fst (getSessionId 1801001 ''new'' 1800000 (with_queue [scenario_event ''A'' 0] (scenario_session\<lparr>faults := [True]\<rparr>)))
     = Inr ''new'' \<and>
   disk (snd (getSessionId 1801001 ''new'' 1800000 (with_queue [scenario_event ''A'' 0] (scenario_session\<lparr>faults := [True]\<rparr>))))
     KEY_SESSION_ID = None"
proof -
  let ?s = "with_queue [scenario_event ''A'' 0] (scenario_session\<lparr>faults := [True]\<rparr>)"
  have h: "next_call_fails ?s"
    by (simp add: next_call_fails_def)
  have d: "disk ?s KEY_VISITOR_ID = None" "disk ?s KEY_SESSION_ID = None"
    "sessionTimestamp ?s = 1000"
    by (simp_all add: with_queue_def scenario_session_def fresh_sdk_def)
  have th: "getQueue ?s = (Inr [], consume_fault ?s) \<and>
         saveQueue [] ?s = (Inr (), consume_fault ?s) \<and>
         setVisitorId ''merged'' ?s = (Inr (), consume_fault (?s\<lparr>visitorId := ''merged''\<rparr>)) \<and>
         getSessionId 1801001 ''new'' 1800000 ?s =
           (Inr ''new'', consume_fault (?s\<lparr>sessionId := ''new'', sessionTimestamp := 1801001\<rparr>))"
    using storage_failure_swallowed [OF h, of "[]" "''merged''" 1801001 "''new''" 1800000]
    by (simp add: d)
  have c: "queue_of (consume_fault ?s) = [scenario_event ''A'' 0]"
    "visitorId (consume_fault (?s\<lparr>visitorId := ''merged''\<rparr>)) = ''merged''"
    "disk (consume_fault (?s\<lparr>visitorId := ''merged''\<rparr>)) KEY_VISITOR_ID = None"
    "disk (consume_fault (?s\<lparr>sessionId := ''new'', sessionTimestamp := 1801001\<rparr>)) KEY_SESSION_ID = None"
    using d by (simp_all add: consume_fault_def queue_of_def with_queue_def)
  show ?thesis
    using h th c by simp
qed

section \<open>Properties of the error tracker and of the screen tracker\<close>

lemma isRateLimited_closed:
  "isRateLimited now s =
     (if MAX_ERRORS_PER_WINDOW \<le> length (rate_window now s)
      then (True, s\<lparr>errorTimestamps := rate_window now s\<rparr>)
      else (False, s\<lparr>errorTimestamps := rate_window now s @ [now]\<rparr>))"
  by (simp add: isRateLimited_def rate_window_def Let_def)

lemma isDuplicate_closed:
  "isDuplicate now k s =
     (if k \<in> sentErrorHashes s then (True, s)
      else (False,
        s\<lparr>sentErrorHashes := insert k (sentErrorHashes s),
          timers := timers s @ [(nextTimerId s, now + DEDUP_EXPIRY_MS, EvictHash k)],
          nextTimerId := Suc (nextTimerId s)\<rparr>))"
  by (simp add: isDuplicate_def setTimeout_def)

lemma captureError_not_ready:
  "\<not> isReady s \<Longrightarrow> captureError cfg now gen e ctx ty sev s = (Inr (), s)"
  by (simp add: captureError_def ret_def)

lemma captureError_limited:
  assumes "isReady s" "MAX_ERRORS_PER_WINDOW \<le> length (rate_window now s)"
  shows "captureError cfg now gen e ctx ty sev s = (Inr (), s\<lparr>errorTimestamps := rate_window now s\<rparr>)"
  using assms by (simp add: captureError_def isRateLimited_closed ret_def)

lemma captureError_duplicate:
  assumes "isReady s" "length (rate_window now s) < MAX_ERRORS_PER_WINDOW"
    and "dedupKey e \<in> sentErrorHashes s"
  shows "captureError cfg now gen e ctx ty sev s =
           (Inr (), s\<lparr>errorTimestamps := rate_window now s @ [now]\<rparr>)"
  using assms by (simp add: captureError_def isRateLimited_closed isDuplicate_closed ret_def)

lemma captureError_sent:
  assumes "isReady s" "length (rate_window now s) < MAX_ERRORS_PER_WINDOW"
    and "dedupKey e \<notin> sentErrorHashes s"
  shows "captureError cfg now gen e ctx ty sev s =
           (Inr (),
            snd (getSessionId now gen (sessionTimeout cfg) s)
              \<lparr>errorTimestamps := rate_window now s @ [now],
               sentErrorHashes := insert (dedupKey e) (sentErrorHashes s),
               timers := timers s @ [(nextTimerId s, now + DEDUP_EXPIRY_MS, EvictHash (dedupKey e))],
               nextTimerId := Suc (nextTimerId s),
               requests := requests s @
                 [(apiUrl cfg @ ''/api/track/errors?apiKey='' @ apiKey cfg,
                   ErrorPayload (visitorId s) (session_after now gen (sessionTimeout cfg) s) ty
                     (error_message e) (normalizeStack (err_stack e)) sev now ctx)]\<rparr>)"
  using assms
  by (simp add: captureError_def isRateLimited_closed isDuplicate_closed ret_def and_then_def
      getSessionId_closed Let_def sendOrQueue_detached_def modify_def getVisitorId_def
      session_after_def next_call_fails_def isReady_def)

lemma sendScreenDuration_closed:
  "sendScreenDuration cfg now s =
     (Inr (),
      if duration_due now s
      then s\<lparr>requests := requests s @
               [(apiUrl cfg @ ''/api/track/screen/duration?apiKey='' @ apiKey cfg,
                 DurationPayload (the (currentScreenViewId s))
                   (min MAX_DURATION (round_seconds (now - screenStartTime s))))],
             currentScreenViewId := None, screenStartTime := 0\<rparr>
      else s)"
  by (auto simp: sendScreenDuration_def duration_due_def ret_def and_then_def modify_def
      sendOrQueue_detached_def Let_def MIN_DURATION_def MAX_DURATION_def split: option.splits)

lemma emitted_sendScreenDuration:
  "emitted (sendScreenDuration cfg now) s =
     (if duration_due now s
      then [(apiUrl cfg @ ''/api/track/screen/duration?apiKey='' @ apiKey cfg,
             DurationPayload (the (currentScreenViewId s))
               (min MAX_DURATION (round_seconds (now - screenStartTime s))))]
      else [])"
  by (simp add: emitted_def sendScreenDuration_closed)

text \<open>
  C9. Every duration that \<open>sendScreenDuration\<close> emits lies between 1 and 3600 seconds
  (a longer one is clamped to 3600), and when the duration rounded to seconds is below 1
  nothing is emitted and nothing changes: the emitted value is the upper clamp of a
  rounded duration that is at least 1, so the lower bound of the clamp is never what
  raises a value.
\<close>

theorem screen_duration_range:
  "(\<forall>r \<in> set (emitted (sendScreenDuration cfg now) s).
      \<exists>vid d. snd r = DurationPayload vid d \<and> 1 \<le> d \<and> d \<le> 3600 \<and>
        1 \<le> round_seconds (now - screenStartTime s) \<and>
        d = min 3600 (round_seconds (now - screenStartTime s))) \<and>
   (round_seconds (now - screenStartTime s) < 1 \<longrightarrow>
      emitted (sendScreenDuration cfg now) s = [] \<and> snd (sendScreenDuration cfg now s) = s)"
  by (auto simp: emitted_sendScreenDuration sendScreenDuration_closed duration_due_def
      MIN_DURATION_def MAX_DURATION_def split: option.splits)

theorem screen_duration_range_witness:
  "emitted (sendScreenDuration (scenario_cfg 2) 4001000) scenario_screen =
     [(''https://app.himetrica.com/api/track/screen/duration?apiKey=key'',
       DurationPayload ''view'' 3600)] \<and>
   round_seconds (1400 - screenStartTime scenario_screen) < 1 \<and>
   emitted (sendScreenDuration (scenario_cfg 2) 1400) scenario_screen = []"
  using screen_duration_range [of "scenario_cfg 2" 4001000 scenario_screen]
    screen_duration_range [of "scenario_cfg 2" 1400 scenario_screen]
  by (simp add: emitted_sendScreenDuration duration_due_def scenario_screen_def
      scenario_session_def fresh_sdk_def scenario_cfg_def round_seconds_def isReady_def
      MIN_DURATION_def MAX_DURATION_def)

lemma emitted_captureError_unsent:
  assumes "\<not> isReady s \<or> MAX_ERRORS_PER_WINDOW \<le> length (rate_window now s) \<or>
           dedupKey e \<in> sentErrorHashes s"
  shows "emitted (captureError cfg now gen e ctx ty sev) s = []"
proof (cases "isReady s")
  case False
  then show ?thesis by (simp add: emitted_def captureError_not_ready)
next
  case ready: True
  show ?thesis
  proof (cases "MAX_ERRORS_PER_WINDOW \<le> length (rate_window now s)")
    case True
    then show ?thesis by (simp add: emitted_def captureError_limited [OF ready])
  next
    case False
    with assms ready have "dedupKey e \<in> sentErrorHashes s" by simp
    with False ready show ?thesis by (simp add: emitted_def captureError_duplicate)
  qed
qed

lemma emitted_captureError_sent:
  assumes "isReady s" "length (rate_window now s) < MAX_ERRORS_PER_WINDOW"
    and "dedupKey e \<notin> sentErrorHashes s"
  shows "emitted (captureError cfg now gen e ctx ty sev) s =
           [(apiUrl cfg @ ''/api/track/errors?apiKey='' @ apiKey cfg,
             ErrorPayload (visitorId s) (session_after now gen (sessionTimeout cfg) s) ty
               (error_message e) (normalizeStack (err_stack e)) sev now ctx)]"
  by (simp add: emitted_def captureError_sent [OF assms])

text \<open>
  C4. An error captured on an initialised client: when the rate window already holds 10
  or more timestamps less than 60 seconds old, the capture is dropped (no request, no
  timestamp recorded, the dedup set untouched); otherwise its timestamp is recorded.
  Timestamps of 60 seconds or older leave the window at each check, so a capture
  succeeds again once one of at most 10 recorded timestamps has expired.
\<close>

theorem rate_limit:
  assumes "isReady s"
  shows "(10 \<le> length (rate_window now s) \<longrightarrow>
            emitted (captureError cfg now gen e ctx ty sev) s = [] \<and>
            errorTimestamps (snd (captureError cfg now gen e ctx ty sev s)) = rate_window now s \<and>
            sentErrorHashes (snd (captureError cfg now gen e ctx ty sev s)) = sentErrorHashes s) \<and>
         (length (rate_window now s) < 10 \<longrightarrow>
            errorTimestamps (snd (captureError cfg now gen e ctx ty sev s)) = rate_window now s @ [now]) \<and>
         (\<forall>t \<in> set (errorTimestamps (snd (captureError cfg now gen e ctx ty sev s))). now - t < 60000) \<and>
         (length (errorTimestamps s) \<le> 10 \<and> (\<exists>t \<in> set (errorTimestamps s). 60000 \<le> now - t) \<longrightarrow>
            errorTimestamps (snd (captureError cfg now gen e ctx ty sev s)) = rate_window now s @ [now])"
proof -
  let ?s' = "snd (captureError cfg now gen e ctx ty sev s)"
  have lim: "errorTimestamps ?s' = rate_window now s \<and> sentErrorHashes ?s' = sentErrorHashes s"
    if "10 \<le> length (rate_window now s)"
    using that assms by (simp add: captureError_limited MAX_ERRORS_PER_WINDOW_def)
  have room: "errorTimestamps ?s' = rate_window now s @ [now]"
    if "length (rate_window now s) < 10"
  proof (cases "dedupKey e \<in> sentErrorHashes s")
    case True
    then show ?thesis using that assms
      by (simp add: captureError_duplicate MAX_ERRORS_PER_WINDOW_def)
  next
    case False
    then show ?thesis using that assms
      by (simp add: captureError_sent MAX_ERRORS_PER_WINDOW_def)
  qed
  have win: "\<forall>t \<in> set (rate_window now s). now - t < 60000"
    by (simp add: rate_window_def RATE_LIMIT_WINDOW_MS_def)
  have fresh: "\<forall>t \<in> set (errorTimestamps ?s'). now - t < 60000"
  proof (cases "10 \<le> length (rate_window now s)")
    case True
    then show ?thesis using lim win by simp
  next
    case False
    then show ?thesis using room win by simp
  qed
  have expired: "length (rate_window now s) < 10"
    if "length (errorTimestamps s) \<le> 10" "\<exists>t \<in> set (errorTimestamps s). 60000 \<le> now - t"
  proof -
    from that(2) obtain t where t: "t \<in> set (errorTimestamps s)" "60000 \<le> now - t"
      by auto
    have "length (filter (\<lambda>t. now - t < 60000) (errorTimestamps s)) < length (errorTimestamps s)"
      by (rule length_filter_less [OF t(1)]) (use t(2) in simp)
    then have "length (rate_window now s) < length (errorTimestamps s)"
      by (simp add: rate_window_def RATE_LIMIT_WINDOW_MS_def)
    with that(1) show ?thesis by simp
  qed
  show ?thesis
    using lim room fresh expired assms
    by (simp add: emitted_captureError_unsent MAX_ERRORS_PER_WINDOW_def)
qed

theorem rate_limit_witness:
  "isReady scenario_limited \<and>
   10 \<le> length (rate_window 59999 scenario_limited) \<and>
   emitted (captureError (scenario_cfg 2) 59999 ''g'' scenario_error None ''error'' Error) scenario_limited = [] \<and>
   errorTimestamps (snd (captureError (scenario_cfg 2) 59999 ''g'' scenario_error None ''error'' Error scenario_limited))
     = [0, 1, 2, 3, 4, 5, 6, 7, 8, 9] \<and>
   length (rate_window 60000 scenario_limited) < 10 \<and>
   errorTimestamps (snd (captureError (scenario_cfg 2) 60000 ''g'' scenario_error None ''error'' Error scenario_limited))
     = [1, 2, 3, 4, 5, 6, 7, 8, 9, 60000]"
proof -
  have r: "isReady scenario_limited"
    by (simp add: isReady_def scenario_limited_def scenario_session_def fresh_sdk_def)
  have w: "rate_window 59999 scenario_limited = [0, 1, 2, 3, 4, 5, 6, 7, 8, 9]"
    "rate_window 60000 scenario_limited = [1, 2, 3, 4, 5, 6, 7, 8, 9]"
    by (simp_all add: rate_window_def scenario_limited_def RATE_LIMIT_WINDOW_MS_def)
  from rate_limit [OF r, of 59999 "scenario_cfg 2" "''g''" scenario_error None "''error''" Error]
    rate_limit [OF r, of 60000 "scenario_cfg 2" "''g''" scenario_error None "''error''" Error]
  show ?thesis
    using r by (simp add: w)
qed

lemma getSessionId_fields:
  "sentErrorHashes (snd (getSessionId now gen T s)) = sentErrorHashes s"
  "timers (snd (getSessionId now gen T s)) = timers s"
  "nextTimerId (snd (getSessionId now gen T s)) = nextTimerId s"
  "screenDebounceTimer (snd (getSessionId now gen T s)) = screenDebounceTimer s"
  "initialized (snd (getSessionId now gen T s)) = initialized s"
  "errorTimestamps (snd (getSessionId now gen T s)) = errorTimestamps s"
  "requests (snd (getSessionId now gen T s)) = requests s"
  "destroyed (snd (getSessionId now gen T s)) = destroyed s"
  by (simp_all add: getSessionId_closed Let_def)

lemma captureError_rule:
  assumes "\<not> isReady s \<Longrightarrow> P s"
    and "isReady s \<Longrightarrow> MAX_ERRORS_PER_WINDOW \<le> length (rate_window now s) \<Longrightarrow>
           P (s\<lparr>errorTimestamps := rate_window now s\<rparr>)"
    and "isReady s \<Longrightarrow> length (rate_window now s) < MAX_ERRORS_PER_WINDOW \<Longrightarrow>
           dedupKey e \<in> sentErrorHashes s \<Longrightarrow>
           P (s\<lparr>errorTimestamps := rate_window now s @ [now]\<rparr>)"
    and "isReady s \<Longrightarrow> length (rate_window now s) < MAX_ERRORS_PER_WINDOW \<Longrightarrow>
           dedupKey e \<notin> sentErrorHashes s \<Longrightarrow>
           P (snd (getSessionId now gen (sessionTimeout cfg) s)
              \<lparr>errorTimestamps := rate_window now s @ [now],
               sentErrorHashes := insert (dedupKey e) (sentErrorHashes s),
               timers := timers s @ [(nextTimerId s, now + DEDUP_EXPIRY_MS, EvictHash (dedupKey e))],
               nextTimerId := Suc (nextTimerId s),
               requests := requests s @
                 [(apiUrl cfg @ ''/api/track/errors?apiKey='' @ apiKey cfg,
                   ErrorPayload (visitorId s) (session_after now gen (sessionTimeout cfg) s) ty
                     (error_message e) (normalizeStack (err_stack e)) sev now ctx)]\<rparr>)"
  shows "P (snd (captureError cfg now gen e ctx ty sev s))"
proof (cases "isReady s")
  case False
  then show ?thesis using assms(1) by (simp add: captureError_not_ready)
next
  case ready: True
  show ?thesis
  proof (cases "MAX_ERRORS_PER_WINDOW \<le> length (rate_window now s)")
    case True
    then show ?thesis using assms(2) ready by (simp add: captureError_limited)
  next
    case False
    then have room: "length (rate_window now s) < MAX_ERRORS_PER_WINDOW" by simp
    show ?thesis
    proof (cases "dedupKey e \<in> sentErrorHashes s")
      case True
      then show ?thesis using assms(3) ready room by (simp add: captureError_duplicate)
    next
      case False
      then show ?thesis using assms(4) ready room by (simp add: captureError_sent)
    qed
  qed
qed

lemma captureError_fields:
  "initialized (snd (captureError cfg now gen e ctx ty sev s)) = initialized s"
  "screenDebounceTimer (snd (captureError cfg now gen e ctx ty sev s)) = screenDebounceTimer s"
  "destroyed (snd (captureError cfg now gen e ctx ty sev s)) = destroyed s"
  by (rule captureError_rule; simp add: getSessionId_fields)+

lemma captureError_timers:
  "(sentErrorHashes (snd (captureError cfg now gen e ctx ty sev s)) = sentErrorHashes s \<and>
    timers (snd (captureError cfg now gen e ctx ty sev s)) = timers s \<and>
    nextTimerId (snd (captureError cfg now gen e ctx ty sev s)) = nextTimerId s) \<or>
   (dedupKey e \<notin> sentErrorHashes s \<and>
    sentErrorHashes (snd (captureError cfg now gen e ctx ty sev s)) = insert (dedupKey e) (sentErrorHashes s) \<and>
    timers (snd (captureError cfg now gen e ctx ty sev s)) =
      timers s @ [(nextTimerId s, now + DEDUP_EXPIRY_MS, EvictHash (dedupKey e))] \<and>
    nextTimerId (snd (captureError cfg now gen e ctx ty sev s)) = Suc (nextTimerId s))"
  by (rule captureError_rule; simp)

lemma sendScreenDuration_fields:
  "sentErrorHashes (snd (sendScreenDuration cfg now s)) = sentErrorHashes s"
  "timers (snd (sendScreenDuration cfg now s)) = timers s"
  "nextTimerId (snd (sendScreenDuration cfg now s)) = nextTimerId s"
  "screenDebounceTimer (snd (sendScreenDuration cfg now s)) = screenDebounceTimer s"
  "initialized (snd (sendScreenDuration cfg now s)) = initialized s"
  "errorTimestamps (snd (sendScreenDuration cfg now s)) = errorTimestamps s"
  "destroyed (snd (sendScreenDuration cfg now s)) = destroyed s"
  "currentScreenName (snd (sendScreenDuration cfg now s)) = currentScreenName s"
  "currentScreenPath (snd (sendScreenDuration cfg now s)) = currentScreenPath s"
  "isFirstScreen (snd (sendScreenDuration cfg now s)) = isFirstScreen s"
  by (simp_all add: sendScreenDuration_closed)

lemma trackScreen_skip:
  "destroyed s \<or> same_screen name path s \<Longrightarrow> trackScreen cfg now gen name path s = (Inr (), s)"
  by (auto simp: trackScreen_def ret_def same_screen_def effective_path_def Let_def)

lemma trackScreen_closed:
  assumes "\<not> destroyed s" "\<not> same_screen name path s"
  shows "trackScreen cfg now gen name path s =
     (Inr (),
      (snd (sendScreenDuration cfg now s))
        \<lparr>timers := (case screenDebounceTimer s of
                      Some h \<Rightarrow> filter (\<lambda>t. fst t \<noteq> h) (timers s)
                    | None \<Rightarrow> timers s) @
            [(nextTimerId s, now + screen_delay s,
              ActivateScreen name (effective_path name path) gen)],
         nextTimerId := Suc (nextTimerId s),
         screenDebounceTimer := Some (nextTimerId s)\<rparr>)"
proof -
  obtain s1 where s1: "sendScreenDuration cfg now s = (Inr (), s1)"
    by (simp add: sendScreenDuration_closed)
  have f: "timers s1 = timers s" "nextTimerId s1 = nextTimerId s"
    "screenDebounceTimer s1 = screenDebounceTimer s" "isFirstScreen s1 = isFirstScreen s"
    using sendScreenDuration_fields [of cfg now s] s1 by simp_all
  have "trackScreen cfg now gen name path s =
      (Inr (), (snd (setTimeout (ActivateScreen name (effective_path name path) gen) (screen_delay s) now
         (case screenDebounceTimer s1 of Some h \<Rightarrow> clearTimeout h s1 | None \<Rightarrow> s1)))
         \<lparr>screenDebounceTimer := Some (fst (setTimeout (ActivateScreen name (effective_path name path) gen) (screen_delay s) now
         (case screenDebounceTimer s1 of Some h \<Rightarrow> clearTimeout h s1 | None \<Rightarrow> s1)))\<rparr>)"
    using assms
    by (auto simp: trackScreen_def same_screen_def effective_path_def and_then_def s1 Let_def
        ret_def screen_delay_def f split_beta)
  also have "\<dots> = (Inr (), s1\<lparr>timers := (case screenDebounceTimer s of
                      Some h \<Rightarrow> filter (\<lambda>t. fst t \<noteq> h) (timers s)
                    | None \<Rightarrow> timers s) @
            [(nextTimerId s, now + screen_delay s,
              ActivateScreen name (effective_path name path) gen)],
         nextTimerId := Suc (nextTimerId s),
         screenDebounceTimer := Some (nextTimerId s)\<rparr>)"
    by (cases "screenDebounceTimer s") (simp_all add: setTimeout_def clearTimeout_def f)
  finally show ?thesis by (simp add: s1)
qed

lemma activateScreen_closed:
  "activateScreen cfg now gen name path vid s =
     (Inr (),
      if isReady s
      then (snd (getSessionId now gen (sessionTimeout cfg) s))
             \<lparr>currentScreenName := Some name, currentScreenPath := Some path,
              currentScreenViewId := Some vid, screenStartTime := now, isFirstScreen := False,
              requests := requests s @
                [(apiUrl cfg @ ''/api/track/screen?apiKey='' @ apiKey cfg,
                  ScreenPayload (visitorId s) (session_after now gen (sessionTimeout cfg) s)
                    vid name path now)]\<rparr>
      else s\<lparr>currentScreenName := Some name, currentScreenPath := Some path,
              currentScreenViewId := Some vid, screenStartTime := now, isFirstScreen := False\<rparr>)"
  by (simp add: activateScreen_def and_then_def modify_def ret_def isReady_def
      getSessionId_closed Let_def sendOrQueue_detached_def getVisitorId_def session_after_def
      next_call_fails_def)

lemma activateScreen_fields:
  "sentErrorHashes (snd (activateScreen cfg now gen name path vid s)) = sentErrorHashes s"
  "timers (snd (activateScreen cfg now gen name path vid s)) = timers s"
  "nextTimerId (snd (activateScreen cfg now gen name path vid s)) = nextTimerId s"
  "screenDebounceTimer (snd (activateScreen cfg now gen name path vid s)) = screenDebounceTimer s"
  "initialized (snd (activateScreen cfg now gen name path vid s)) = initialized s"
  "errorTimestamps (snd (activateScreen cfg now gen name path vid s)) = errorTimestamps s"
  "destroyed (snd (activateScreen cfg now gen name path vid s)) = destroyed s"
  "currentScreenName (snd (activateScreen cfg now gen name path vid s)) = Some name"
  "currentScreenPath (snd (activateScreen cfg now gen name path vid s)) = Some path"
  "currentScreenViewId (snd (activateScreen cfg now gen name path vid s)) = Some vid"
  by (simp_all add: activateScreen_closed getSessionId_fields)

lemma find_handle: "find (\<lambda>t. fst t = h) ts = Some (h', due, cb) \<Longrightarrow> h' = h \<and> (h, due, cb) \<in> set ts"
  by (induction ts) (auto split: if_splits)

lemma fire_rule:
  assumes "find (\<lambda>t. fst t = h) (timers s) = None \<Longrightarrow> P s"
    and "\<And>due cb. find (\<lambda>t. fst t = h) (timers s) = Some (h, due, cb) \<Longrightarrow> now < due \<Longrightarrow> P s"
    and "\<And>due k. find (\<lambda>t. fst t = h) (timers s) = Some (h, due, EvictHash k) \<Longrightarrow> due \<le> now \<Longrightarrow>
           P (s\<lparr>timers := filter (\<lambda>t. fst t \<noteq> h) (timers s),
                sentErrorHashes := sentErrorHashes s - {k}\<rparr>)"
    and "\<And>due n p v. find (\<lambda>t. fst t = h) (timers s) = Some (h, due, ActivateScreen n p v) \<Longrightarrow>
           due \<le> now \<Longrightarrow>
           P (snd (activateScreen cfg now gen n p v
                (s\<lparr>timers := filter (\<lambda>t. fst t \<noteq> h) (timers s)\<rparr>)))"
  shows "P (fire cfg h now gen s)"
proof (cases "find (\<lambda>t. fst t = h) (timers s)")
  case None
  then show ?thesis using assms(1) by (simp add: fire_def)
next
  case (Some t)
  obtain h' due cb where t: "t = (h', due, cb)" by (cases t) auto
  with Some find_handle [of h "timers s" h' due cb] have h': "h' = h" by simp
  show ?thesis
  proof (cases "now < due")
    case True
    then show ?thesis using assms(2) Some t h' by (simp add: fire_def)
  next
    case False
    show ?thesis
    proof (cases cb)
      case (ActivateScreen n p v)
      then show ?thesis
        using assms(4) [of due n p v] Some t h' False
        by (simp add: fire_def run_callback_def clearTimeout_def)
    next
      case (EvictHash k)
      then show ?thesis
        using assms(3) [of due k] Some t h' False
        by (simp add: fire_def run_callback_def clearTimeout_def evictHash_def modify_def)
    qed
  qed
qed

lemma fire_fields:
  "initialized (fire cfg h now gen s) = initialized s"
  "nextTimerId (fire cfg h now gen s) = nextTimerId s"
  "screenDebounceTimer (fire cfg h now gen s) = screenDebounceTimer s"
  "errorTimestamps (fire cfg h now gen s) = errorTimestamps s"
  "destroyed (fire cfg h now gen s) = destroyed s"
  by (rule fire_rule; simp add: activateScreen_fields)+

lemma trackScreen_fields:
  "initialized (snd (trackScreen cfg now gen name path s)) = initialized s"
  "sentErrorHashes (snd (trackScreen cfg now gen name path s)) = sentErrorHashes s"
  "errorTimestamps (snd (trackScreen cfg now gen name path s)) = errorTimestamps s"
  "destroyed (snd (trackScreen cfg now gen name path s)) = destroyed s"
  by (cases "destroyed s \<or> same_screen name path s";
      simp add: trackScreen_skip trackScreen_closed sendScreenDuration_fields)+

lemma perform_ready: "isReady (perform cfg a s) = isReady s"
  by (cases a) (simp_all add: isReady_def captureError_fields trackScreen_fields
      sendScreenDuration_fields fire_fields)

lemma run_ready: "isReady (run cfg acts s) = isReady s"
  unfolding run_def by (induction acts arbitrary: s) (simp_all add: perform_ready)

lemma trackScreen_timers:
  "timers (snd (trackScreen cfg now gen name path s)) = timers s \<and>
   nextTimerId (snd (trackScreen cfg now gen name path s)) = nextTimerId s \<and>
   screenDebounceTimer (snd (trackScreen cfg now gen name path s)) = screenDebounceTimer s \<or>
   timers (snd (trackScreen cfg now gen name path s)) =
     (case screenDebounceTimer s of
        Some h \<Rightarrow> filter (\<lambda>t. fst t \<noteq> h) (timers s) | None \<Rightarrow> timers s) @
     [(nextTimerId s, now + screen_delay s, ActivateScreen name (effective_path name path) gen)] \<and>
   nextTimerId (snd (trackScreen cfg now gen name path s)) = Suc (nextTimerId s) \<and>
   screenDebounceTimer (snd (trackScreen cfg now gen name path s)) = Some (nextTimerId s)"
  by (cases "destroyed s \<or> same_screen name path s")
    (simp_all add: trackScreen_skip trackScreen_closed)

lemma evict_guard_perform:
  assumes "evict_guard k D s" "action_time a < D"
  shows "evict_guard k D (perform cfg a s)"
proof (cases a)
  case (CaptureError now gen e ctx ty sev)
  show ?thesis
    using captureError_timers [of cfg now gen e ctx ty sev s] assms(1)
    unfolding CaptureError perform.simps evict_guard_def
    by auto
next
  case (TrackScreen now gen name path)
  show ?thesis
    using trackScreen_timers [of cfg now gen name path s] assms(1)
    unfolding TrackScreen perform.simps evict_guard_def
    by (auto simp: trackScreen_fields split: option.splits)
next
  case (SendScreenDuration now)
  then show ?thesis
    using assms(1) by (simp add: evict_guard_def sendScreenDuration_fields)
next
  case (TimerFires h now gen)
  have now: "now < D" using assms(2) TimerFires by simp
  show ?thesis
    unfolding TimerFires perform.simps
  proof (rule fire_rule)
    show "evict_guard k D s" by (rule assms(1))
  next
    show "evict_guard k D s" by (rule assms(1))
  next
    fix due k'
    assume f: "find (\<lambda>t. fst t = h) (timers s) = Some (h, due, EvictHash k')" and due: "due \<le> now"
    have "(h, due, EvictHash k') \<in> set (timers s)"
      using find_handle [OF f] by simp
    with assms(1) due now have "k' \<noteq> k"
      by (auto simp: evict_guard_def)
    then show "evict_guard k D (s\<lparr>timers := filter (\<lambda>t. fst t \<noteq> h) (timers s),
                sentErrorHashes := sentErrorHashes s - {k'}\<rparr>)"
      using assms(1) by (auto simp: evict_guard_def)
  next
    fix due n p v
    show "evict_guard k D (snd (activateScreen cfg now gen n p v
                (s\<lparr>timers := filter (\<lambda>t. fst t \<noteq> h) (timers s)\<rparr>)))"
      using assms(1) by (auto simp: evict_guard_def activateScreen_fields)
  qed
qed

lemma evict_guard_run:
  assumes "evict_guard k D s" "\<forall>a \<in> set acts. action_time a < D"
  shows "evict_guard k D (run cfg acts s)"
  using assms unfolding run_def
  by (induction acts arbitrary: s) (simp_all add: evict_guard_perform)

lemma find_append_Some: "find P xs = Some x \<Longrightarrow> find P (xs @ ys) = Some x"
  by (induction xs) (auto split: if_splits)

lemma find_filter_other:
  "find (\<lambda>t. fst t = h) xs = Some x \<Longrightarrow> h' \<noteq> h \<Longrightarrow>
   find (\<lambda>t. fst t = h) (filter (\<lambda>t. fst t \<noteq> h') xs) = Some x"
  by (induction xs) (auto split: if_splits)

lemma evict_pending_perform:
  assumes "evict_pending h k D s" "action_time a < D"
  shows "evict_pending h k D (perform cfg a s)"
proof (cases a)
  case (CaptureError now gen e ctx ty sev)
  show ?thesis
    using captureError_timers [of cfg now gen e ctx ty sev s] assms(1)
    unfolding CaptureError perform.simps evict_pending_def
    by (auto simp: captureError_fields find_append_Some)
next
  case (TrackScreen now gen name path)
  show ?thesis
    using trackScreen_timers [of cfg now gen name path s] assms(1)
    unfolding TrackScreen perform.simps evict_pending_def
    by (auto simp: find_append_Some find_filter_other split: option.splits)
next
  case (SendScreenDuration now)
  then show ?thesis
    using assms(1) by (simp add: evict_pending_def sendScreenDuration_fields)
next
  case (TimerFires h' now gen)
  have now: "now < D" using assms(2) TimerFires by simp
  have fh: "find (\<lambda>t. fst t = h) (timers s) = Some (h, D, EvictHash k)"
    using assms(1) by (simp add: evict_pending_def)
  have other: "h' \<noteq> h" if "find (\<lambda>t. fst t = h') (timers s) = Some (h', due, cb)" "due \<le> now" for due cb
    using that fh now by auto
  show ?thesis
    unfolding TimerFires perform.simps
  proof (rule fire_rule)
    show "evict_pending h k D s" by (rule assms(1))
  next
    show "evict_pending h k D s" by (rule assms(1))
  next
    fix due k'
    assume f: "find (\<lambda>t. fst t = h') (timers s) = Some (h', due, EvictHash k')" and due: "due \<le> now"
    from other [OF f due] show "evict_pending h k D (s\<lparr>timers := filter (\<lambda>t. fst t \<noteq> h') (timers s),
                sentErrorHashes := sentErrorHashes s - {k'}\<rparr>)"
      using assms(1) by (simp add: evict_pending_def find_filter_other)
  next
    fix due n p v
    assume f: "find (\<lambda>t. fst t = h') (timers s) = Some (h', due, ActivateScreen n p v)" and due: "due \<le> now"
    from other [OF f due] show "evict_pending h k D (snd (activateScreen cfg now gen n p v
                (s\<lparr>timers := filter (\<lambda>t. fst t \<noteq> h') (timers s)\<rparr>)))"
      using assms(1) by (simp add: evict_pending_def activateScreen_fields find_filter_other)
  qed
qed

lemma evict_pending_run:
  assumes "evict_pending h k D s" "\<forall>a \<in> set acts. action_time a < D"
  shows "evict_pending h k D (run cfg acts s)"
  using assms unfolding run_def
  by (induction acts arbitrary: s) (simp_all add: evict_pending_perform)

lemma fire_evicts:
  assumes "evict_pending h k D s" "D \<le> now"
  shows "k \<notin> sentErrorHashes (fire cfg h now gen s)"
  using assms
  by (simp add: fire_def evict_pending_def run_callback_def evictHash_def modify_def clearTimeout_def)

lemma fire_timers:
  "timers (fire cfg h now gen s) = timers s \<and> sentErrorHashes (fire cfg h now gen s) = sentErrorHashes s \<or>
   timers (fire cfg h now gen s) = filter (\<lambda>t. fst t \<noteq> h) (timers s) \<and>
     (sentErrorHashes (fire cfg h now gen s) = sentErrorHashes s \<or>
      (\<exists>due k. find (\<lambda>t. fst t = h) (timers s) = Some (h, due, EvictHash k) \<and>
         sentErrorHashes (fire cfg h now gen s) = sentErrorHashes s - {k}))"
  by (rule fire_rule) (simp_all add: activateScreen_fields)

lemma timers_wf_perform: "timers_wf s \<Longrightarrow> timers_wf (perform cfg a s)"
proof (cases a)
  case (CaptureError now gen e ctx ty sev)
  assume "timers_wf s"
  then show ?thesis
    using captureError_timers [of cfg now gen e ctx ty sev s]
    unfolding CaptureError perform.simps timers_wf_def
    by (fastforce simp: captureError_fields less_Suc_eq split: option.splits)
next
  case (TrackScreen now gen name path)
  assume "timers_wf s"
  then show ?thesis
    using trackScreen_timers [of cfg now gen name path s]
    unfolding TrackScreen perform.simps timers_wf_def
    by (fastforce simp: less_Suc_eq split: option.splits)
next
  case (SendScreenDuration now)
  assume "timers_wf s"
  then show ?thesis
    using SendScreenDuration by (simp add: timers_wf_def sendScreenDuration_fields)
next
  case (TimerFires h now gen)
  assume "timers_wf s"
  then show ?thesis
    using fire_timers [of cfg h now gen s]
    unfolding TimerFires perform.simps timers_wf_def
    by (fastforce simp: fire_fields)
qed

lemma find_append_None: "find P xs = None \<Longrightarrow> find P (xs @ ys) = find P ys"
  by (induction xs) (auto split: if_splits)

lemma dedup_inv_fresh: "dedup_inv fresh_sdk \<and> timers_wf fresh_sdk"
  by (simp add: dedup_inv_def timers_wf_def fresh_sdk_def evict_keys_def)

lemma evict_keys_simps [simp]:
  "evict_keys [] = []"
  "evict_keys ((h, due, EvictHash k) # ts) = k # evict_keys ts"
  "evict_keys ((h, due, ActivateScreen n p v) # ts) = evict_keys ts"
  "evict_keys (ts @ us) = evict_keys ts @ evict_keys us"
  by (simp_all add: evict_keys_def)

lemma evict_keys_mem: "(h, due, EvictHash k) \<in> set ts \<Longrightarrow> k \<in> set (evict_keys ts)"
  by (induction ts) (auto simp: evict_keys_def)

lemma evict_keys_filter:
  "set (evict_keys (filter P ts)) \<subseteq> set (evict_keys ts) \<and>
   (distinct (evict_keys ts) \<longrightarrow> distinct (evict_keys (filter P ts)))"
proof (induction ts)
  case Nil
  then show ?case by simp
next
  case (Cons t ts)
  obtain h due cb where t: "t = (h, due, cb)" by (cases t) auto
  show ?case using Cons by (cases cb) (auto simp: t)
qed

lemma evict_keys_fired:
  "find (\<lambda>t. fst t = h) ts = Some (h, due, EvictHash k) \<Longrightarrow> distinct (evict_keys ts) \<Longrightarrow>
   k \<notin> set (evict_keys (filter (\<lambda>t. fst t \<noteq> h) ts))"
proof (induction ts)
  case Nil
  then show ?case by simp
next
  case (Cons t ts)
  obtain h' due' cb where t: "t = (h', due', cb)" by (cases t) auto
  show ?case
  proof (cases "h' = h")
    case True
    with Cons.prems t have "cb = EvictHash k" by simp
    with Cons.prems True t evict_keys_filter [of "\<lambda>t. fst t \<noteq> h" ts] show ?thesis
      by auto
  next
    case False
    with Cons.prems t have f: "find (\<lambda>t. fst t = h) ts = Some (h, due, EvictHash k)"
      by simp
    then have "k \<in> set (evict_keys ts)"
      using find_handle [OF f] evict_keys_mem by fast
    with Cons.prems Cons.IH [OF f] False t show ?thesis
      by (cases cb) auto
  qed
qed

lemma dedup_inv_perform: "dedup_inv s \<Longrightarrow> dedup_inv (perform cfg a s)"
proof (cases a)
  case (CaptureError now gen e ctx ty sev)
  assume "dedup_inv s"
  then show ?thesis
    using captureError_timers [of cfg now gen e ctx ty sev s]
    unfolding CaptureError perform.simps dedup_inv_def
    by auto
next
  case (TrackScreen now gen name path)
  assume "dedup_inv s"
  then show ?thesis
    using trackScreen_timers [of cfg now gen name path s]
      evict_keys_filter [of "\<lambda>t. fst t \<noteq> the (screenDebounceTimer s)" "timers s"]
    unfolding TrackScreen perform.simps dedup_inv_def
    by (auto simp: trackScreen_fields split: option.splits)
next
  case (SendScreenDuration now)
  assume "dedup_inv s"
  then show ?thesis
    using SendScreenDuration by (simp add: dedup_inv_def sendScreenDuration_fields)
next
  case (TimerFires h now gen)
  assume inv: "dedup_inv s"
  have sub: "set (evict_keys (filter (\<lambda>t. fst t \<noteq> h) (timers s))) \<subseteq> sentErrorHashes s"
    and dis: "distinct (evict_keys (filter (\<lambda>t. fst t \<noteq> h) (timers s)))"
    using inv evict_keys_filter [of "\<lambda>t. fst t \<noteq> h" "timers s"] by (auto simp: dedup_inv_def)
  show ?thesis
    unfolding TimerFires perform.simps
  proof (rule fire_rule)
    show "dedup_inv s" by (rule inv)
  next
    show "dedup_inv s" by (rule inv)
  next
    fix due k
    assume f: "find (\<lambda>t. fst t = h) (timers s) = Some (h, due, EvictHash k)"
    have "k \<notin> set (evict_keys (filter (\<lambda>t. fst t \<noteq> h) (timers s)))"
      using evict_keys_fired [OF f] inv by (simp add: dedup_inv_def)
    then show "dedup_inv (s\<lparr>timers := filter (\<lambda>t. fst t \<noteq> h) (timers s),
                sentErrorHashes := sentErrorHashes s - {k}\<rparr>)"
      using sub dis by (auto simp: dedup_inv_def)
  next
    fix due n p v
    show "dedup_inv (snd (activateScreen cfg now gen n p v
                (s\<lparr>timers := filter (\<lambda>t. fst t \<noteq> h) (timers s)\<rparr>)))"
      using sub dis by (simp add: dedup_inv_def activateScreen_fields)
  qed
qed

lemma invariants_run:
  "timers_wf s \<Longrightarrow> dedup_inv s \<Longrightarrow> timers_wf (run cfg acts s) \<and> dedup_inv (run cfg acts s)"
  unfolding run_def
  by (induction acts arbitrary: s) (simp_all add: timers_wf_perform dedup_inv_perform)

lemma captureError_timestamps_bound:
  assumes "\<forall>t \<in> set (errorTimestamps s). t \<le> M" "now \<le> M"
  shows "\<forall>t \<in> set (errorTimestamps (snd (captureError cfg now gen e ctx ty sev s))). t \<le> M"
  by (rule captureError_rule [where P = "\<lambda>x. \<forall>t \<in> set (errorTimestamps x). t \<le> M"])
    (use assms in \<open>simp_all add: rate_window_def getSessionId_fields\<close>)

lemma perform_timestamps_bound:
  assumes "\<forall>t \<in> set (errorTimestamps s). t \<le> M" "action_time a \<le> M"
  shows "\<forall>t \<in> set (errorTimestamps (perform cfg a s)). t \<le> M"
proof (cases a)
  case (CaptureError now gen e ctx ty sev)
  with assms(2) have "now \<le> M" by simp
  from captureError_timestamps_bound [OF assms(1) this] show ?thesis
    unfolding CaptureError perform.simps .
next
  case (TrackScreen now gen name path)
  then show ?thesis using assms(1) by (simp add: trackScreen_fields)
next
  case (SendScreenDuration now)
  then show ?thesis using assms(1) by (simp add: sendScreenDuration_fields)
next
  case (TimerFires h now gen)
  then show ?thesis using assms(1) by (simp add: fire_fields)
qed

lemma run_timestamps_bound:
  assumes "\<forall>t \<in> set (errorTimestamps s). t \<le> M" "\<forall>a \<in> set acts. action_time a \<le> M"
  shows "\<forall>t \<in> set (errorTimestamps (run cfg acts s)). t \<le> M"
  using assms unfolding run_def
proof (induction acts arbitrary: s)
  case Nil
  then show ?case by simp
next
  case (Cons a acts)
  have "\<forall>t \<in> set (errorTimestamps (perform cfg a s)). t \<le> M"
    using Cons.prems by (intro perform_timestamps_bound) simp_all
  from Cons.IH [OF this] Cons.prems(2) show ?case by simp
qed

lemma rate_window_expired:
  assumes "\<forall>t \<in> set (errorTimestamps s). t \<le> M" "M + RATE_LIMIT_WINDOW_MS \<le> now"
  shows "rate_window now s = []"
proof -
  have "\<not> now - t < RATE_LIMIT_WINDOW_MS" if "t \<in> set (errorTimestamps s)" for t
    using assms that by fastforce
  then show ?thesis by (simp add: rate_window_def filter_empty_conv)
qed

text \<open>
  C5. Of two captures with the same message and truncated stack (the same dedup key),
  the first one passing the rate limit at \<open>t1\<close> with the key not in the dedup set, the
  first issues exactly one request and the second none, whatever else happens to the
  client before \<open>t1\<close> plus 5 minutes (until then the timer of the key cannot fire).
  Once that timer has fired, 5 minutes or more after \<open>t1\<close>, a third capture with the
  same key that passes the rate limit issues a request again.
\<close>

theorem dedup_window:
  assumes ready: "isReady s" and wf: "timers_wf s" and inv: "dedup_inv s"
    and fresh: "dedupKey e1 \<notin> sentErrorHashes s"
    and room: "length (rate_window t1 s) < MAX_ERRORS_PER_WINDOW"
    and same: "dedupKey e2 = dedupKey e1" "dedupKey e3 = dedupKey e1"
    and before: "\<forall>a \<in> set acts. action_time a < t1 + DEDUP_EXPIRY_MS"
    and before': "\<forall>a \<in> set acts'. action_time a < t1 + DEDUP_EXPIRY_MS"
    and expiry: "t1 + DEDUP_EXPIRY_MS \<le> tf"
    and s2: "s2 = run cfg acts (snd (captureError cfg t1 g1 e1 c1 ty1 sv1 s))"
    and s3: "s3 = fire cfg (nextTimerId s) tf gf
                   (run cfg acts' (snd (captureError cfg t2 g2 e2 c2 ty2 sv2 s2)))"
  shows "emitted (captureError cfg t1 g1 e1 c1 ty1 sv1) s =
           [(apiUrl cfg @ ''/api/track/errors?apiKey='' @ apiKey cfg,
             ErrorPayload (visitorId s) (session_after t1 g1 (sessionTimeout cfg) s) ty1
               (error_message e1) (normalizeStack (err_stack e1)) sv1 t1 c1)] \<and>
         emitted (captureError cfg t2 g2 e2 c2 ty2 sv2) s2 = [] \<and>
         (length (rate_window t3 s3) < MAX_ERRORS_PER_WINDOW \<longrightarrow>
            emitted (captureError cfg t3 g3 e3 c3 ty3 sv3) s3 =
              [(apiUrl cfg @ ''/api/track/errors?apiKey='' @ apiKey cfg,
                ErrorPayload (visitorId s3) (session_after t3 g3 (sessionTimeout cfg) s3) ty3
                  (error_message e3) (normalizeStack (err_stack e3)) sv3 t3 c3)])"
proof -
  let ?k = "dedupKey e1" and ?D = "t1 + DEDUP_EXPIRY_MS" and ?h = "nextTimerId s"
  let ?s1 = "snd (captureError cfg t1 g1 e1 c1 ty1 sv1 s)"
  have first: "emitted (captureError cfg t1 g1 e1 c1 ty1 sv1) s =
           [(apiUrl cfg @ ''/api/track/errors?apiKey='' @ apiKey cfg,
             ErrorPayload (visitorId s) (session_after t1 g1 (sessionTimeout cfg) s) ty1
               (error_message e1) (normalizeStack (err_stack e1)) sv1 t1 c1)]"
    by (rule emitted_captureError_sent [OF ready room fresh])
  have s1: "sentErrorHashes ?s1 = insert ?k (sentErrorHashes s)"
    "timers ?s1 = timers s @ [(?h, ?D, EvictHash ?k)]"
    "nextTimerId ?s1 = Suc ?h" "screenDebounceTimer ?s1 = screenDebounceTimer s"
    by (simp_all add: captureError_sent [OF ready room fresh] getSessionId_fields)
  have old: "\<forall>t \<in> set (timers s). snd (snd t) \<noteq> EvictHash ?k \<and> fst t \<noteq> ?h"
  proof
    fix t assume t: "t \<in> set (timers s)"
    obtain h due cb where c: "t = (h, due, cb)" by (cases t) auto
    have "cb \<noteq> EvictHash ?k"
      using evict_keys_mem [of h due ?k "timers s"] t c inv fresh by (auto simp: dedup_inv_def)
    moreover have "h \<noteq> nextTimerId s"
      using wf t c by (fastforce simp: timers_wf_def)
    ultimately show "snd (snd t) \<noteq> EvictHash ?k \<and> fst t \<noteq> ?h" by (simp add: c)
  qed
  have g1: "evict_guard ?k ?D ?s1"
    using old by (auto simp: evict_guard_def s1)
  have "find (\<lambda>t. fst t = ?h) (timers s) = None"
    using old by (auto simp: find_None_iff)
  then have p1: "evict_pending ?h ?k ?D ?s1"
    using wf by (auto simp: evict_pending_def s1 find_append_None timers_wf_def split: option.splits)
  have g2: "evict_guard ?k ?D s2" and p2: "evict_pending ?h ?k ?D s2"
    unfolding s2 using g1 p1 before by (simp_all add: evict_guard_run evict_pending_run)
  have second: "emitted (captureError cfg t2 g2 e2 c2 ty2 sv2) s2 = []"
    using g2 same(1) by (intro emitted_captureError_unsent) (simp add: evict_guard_def)
  let ?s2' = "snd (captureError cfg t2 g2 e2 c2 ty2 sv2 s2)"
  have "?s2' = perform cfg (CaptureError t2 g2 e2 c2 ty2 sv2) s2"
    by simp
  moreover have "sentErrorHashes ?s2' = sentErrorHashes s2 \<and> timers ?s2' = timers s2 \<and>
      nextTimerId ?s2' = nextTimerId s2"
    using captureError_timers [of cfg t2 g2 e2 c2 ty2 sv2 s2] g2 same(1)
    by (auto simp: evict_guard_def)
  ultimately have p2': "evict_pending ?h ?k ?D ?s2'"
    using p2 by (simp add: evict_pending_def captureError_fields)
  have p3: "evict_pending ?h ?k ?D (run cfg acts' ?s2')"
    using p2' before' by (rule evict_pending_run)
  have gone: "dedupKey e3 \<notin> sentErrorHashes s3"
    unfolding s3 same(2) by (rule fire_evicts [OF p3 expiry])
  have ready3: "isReady s3"
    unfolding s3 s2 using ready
    by (simp add: isReady_def fire_fields run_ready [unfolded isReady_def] captureError_fields)
  have third: "emitted (captureError cfg t3 g3 e3 c3 ty3 sv3) s3 =
              [(apiUrl cfg @ ''/api/track/errors?apiKey='' @ apiKey cfg,
                ErrorPayload (visitorId s3) (session_after t3 g3 (sessionTimeout cfg) s3) ty3
                  (error_message e3) (normalizeStack (err_stack e3)) sv3 t3 c3)]"
    if "length (rate_window t3 s3) < MAX_ERRORS_PER_WINDOW"
    by (rule emitted_captureError_sent [OF ready3 that gone])
  show ?thesis
    using first second third by simp
qed

theorem dedup_window_witness:
  "isReady scenario_session \<and> timers_wf scenario_session \<and> dedup_inv scenario_session \<and>
   dedupKey scenario_error \<notin> sentErrorHashes scenario_session \<and>
   length (rate_window 5000 scenario_session) < MAX_ERRORS_PER_WINDOW \<and>
   length (emitted (captureError (scenario_cfg 2) 5000 ''g'' scenario_error None ''error'' Error)
      scenario_session) = 1 \<and>
   emitted (captureError (scenario_cfg 2) 65000 ''g'' scenario_error None ''error'' Error)
     (run (scenario_cfg 2) [TimerFires 1 60000 ''g'']
        (snd (captureError (scenario_cfg 2) 5000 ''g'' scenario_error None ''error'' Error scenario_session))) = [] \<and>
   length (emitted (captureError (scenario_cfg 2) 400000 ''g'' scenario_error None ''error'' Error)
     (fire (scenario_cfg 2) (nextTimerId scenario_session) 305000 ''g''
       (run (scenario_cfg 2) []
         (snd (captureError (scenario_cfg 2) 65000 ''g'' scenario_error None ''error'' Error
           (run (scenario_cfg 2) [TimerFires 1 60000 ''g'']
             (snd (captureError (scenario_cfg 2) 5000 ''g'' scenario_error None ''error'' Error scenario_session)))))))) = 1"
proof -
  let ?c = "scenario_cfg 2" and ?e = scenario_error and ?s = scenario_session
  let ?s2 = "run ?c [TimerFires 1 60000 ''g''] (snd (captureError ?c 5000 ''g'' ?e None ''error'' Error ?s))"
  let ?s3 = "fire ?c (nextTimerId ?s) 305000 ''g''
       (run ?c [] (snd (captureError ?c 65000 ''g'' ?e None ''error'' Error ?s2)))"
  have r: "isReady ?s" and wf: "timers_wf ?s" and inv: "dedup_inv ?s"
    and fresh: "dedupKey ?e \<notin> sentErrorHashes ?s"
    and room: "length (rate_window 5000 ?s) < MAX_ERRORS_PER_WINDOW"
    by (simp_all add: isReady_def timers_wf_def dedup_inv_def scenario_session_def fresh_sdk_def
        rate_window_def MAX_ERRORS_PER_WINDOW_def)
  have b: "\<forall>a \<in> set [TimerFires 1 60000 ''g'']. action_time a < 5000 + DEDUP_EXPIRY_MS"
    and b': "\<forall>a \<in> set []. action_time a < 5000 + DEDUP_EXPIRY_MS"
    and x: "5000 + DEDUP_EXPIRY_MS \<le> 305000"
    by (simp_all add: DEDUP_EXPIRY_MS_def)
  have "\<forall>t \<in> set (errorTimestamps ?s). t \<le> 65000"
    by (simp add: scenario_session_def fresh_sdk_def)
  then have "\<forall>t \<in> set (errorTimestamps (snd (captureError ?c 5000 ''g'' ?e None ''error'' Error ?s))). t \<le> 65000"
    by (rule captureError_timestamps_bound) simp
  then have "\<forall>t \<in> set (errorTimestamps ?s2). t \<le> 65000"
    by (rule run_timestamps_bound) simp
  then have "\<forall>t \<in> set (errorTimestamps (snd (captureError ?c 65000 ''g'' ?e None ''error'' Error ?s2))). t \<le> 65000"
    by (rule captureError_timestamps_bound) simp
  then have "\<forall>t \<in> set (errorTimestamps ?s3). t \<le> 65000"
    by (simp add: fire_fields run_def)
  then have "rate_window 400000 ?s3 = []"
    by (rule rate_window_expired) (simp add: RATE_LIMIT_WINDOW_MS_def)
  then have room3: "length (rate_window 400000 ?s3) < MAX_ERRORS_PER_WINDOW"
    by (simp add: MAX_ERRORS_PER_WINDOW_def)
  note th = dedup_window [where s = ?s and cfg = ?c and ?e1.0 = ?e and ?e2.0 = ?e and ?e3.0 = ?e
      and ?t1.0 = 5000 and ?g1.0 = "''g''" and ?c1.0 = None and ?ty1.0 = "''error''" and ?sv1.0 = Error
      and ?t2.0 = 65000 and ?g2.0 = "''g''" and ?c2.0 = None and ?ty2.0 = "''error''" and ?sv2.0 = Error
      and ?t3.0 = 400000 and ?g3.0 = "''g''" and ?c3.0 = None and ?ty3.0 = "''error''" and ?sv3.0 = Error
      and acts = "[TimerFires 1 60000 ''g'']" and acts' = "[]" and tf = 305000 and gf = "''g''"
      and ?s2.0 = ?s2 and ?s3.0 = ?s3,
      OF r wf inv fresh room refl refl b b' x refl refl]
  have one: "length (emitted (captureError ?c 5000 ''g'' ?e None ''error'' Error) ?s) = 1"
    using conjunct1 [OF th] by simp
  have two: "emitted (captureError ?c 65000 ''g'' ?e None ''error'' Error) ?s2 = []"
    using conjunct1 [OF conjunct2 [OF th]] .
  have three: "length (emitted (captureError ?c 400000 ''g'' ?e None ''error'' Error) ?s3) = 1"
    using mp [OF conjunct2 [OF conjunct2 [OF th]] room3] by simp
  show ?thesis
    using r wf inv fresh room one two three by blast
qed

lemma fire_hashes: "sentErrorHashes (fire cfg h now gen s) \<subseteq> sentErrorHashes s"
  by (rule fire_rule) (auto simp: activateScreen_fields)

lemma perform_no_capture_hashes:
  "no_capture a \<Longrightarrow> sentErrorHashes (perform cfg a s) \<subseteq> sentErrorHashes s"
  using fire_hashes
  by (cases a) (simp_all add: trackScreen_fields sendScreenDuration_fields)

lemma run_no_capture_hashes:
  "\<forall>a \<in> set acts. no_capture a \<Longrightarrow> sentErrorHashes (run cfg acts s) \<subseteq> sentErrorHashes s"
  unfolding run_def
proof (induction acts arbitrary: s)
  case Nil
  then show ?case by simp
next
  case (Cons a acts)
  have "sentErrorHashes (fold (perform cfg) acts (perform cfg a s)) \<subseteq> sentErrorHashes (perform cfg a s)"
    using Cons by simp
  also have "\<dots> \<subseteq> sentErrorHashes s"
    using Cons.prems by (intro perform_no_capture_hashes) simp
  finally show ?case by simp
qed

text \<open>
  C10. A capture that the rate limiter rejects leaves the dedup set and its timers as
  they were, so an identical error whose key was not in the set is still delivered by
  a later capture that finds room in the window, whatever timers fire or screens are
  tracked in between. A capture that passes the rate limit and is then rejected as a
  duplicate has recorded its timestamp: it has used one slot of the window.
\<close>

theorem rate_limited_keeps_dedup:
  assumes "isReady s"
  shows "(MAX_ERRORS_PER_WINDOW \<le> length (rate_window t1 s) \<longrightarrow>
            sentErrorHashes (snd (captureError cfg t1 g1 e c1 ty1 sv1 s)) = sentErrorHashes s \<and>
            timers (snd (captureError cfg t1 g1 e c1 ty1 sv1 s)) = timers s \<and>
            emitted (captureError cfg t1 g1 e c1 ty1 sv1) s = []) \<and>
         (MAX_ERRORS_PER_WINDOW \<le> length (rate_window t1 s) \<and>
          dedupKey e \<notin> sentErrorHashes s \<and> dedupKey e' = dedupKey e \<and>
          (\<forall>a \<in> set acts. no_capture a) \<and>
          length (rate_window t2 (run cfg acts (snd (captureError cfg t1 g1 e c1 ty1 sv1 s))))
            < MAX_ERRORS_PER_WINDOW \<longrightarrow>
            length (emitted (captureError cfg t2 g2 e' c2 ty2 sv2)
              (run cfg acts (snd (captureError cfg t1 g1 e c1 ty1 sv1 s)))) = 1) \<and>
         (length (rate_window t1 s) < MAX_ERRORS_PER_WINDOW \<and> dedupKey e \<in> sentErrorHashes s \<longrightarrow>
            emitted (captureError cfg t1 g1 e c1 ty1 sv1) s = [] \<and>
            errorTimestamps (snd (captureError cfg t1 g1 e c1 ty1 sv1 s)) = rate_window t1 s @ [t1] \<and>
            sentErrorHashes (snd (captureError cfg t1 g1 e c1 ty1 sv1 s)) = sentErrorHashes s)"
proof -
  let ?s1 = "snd (captureError cfg t1 g1 e c1 ty1 sv1 s)"
  have a: "sentErrorHashes ?s1 = sentErrorHashes s \<and> timers ?s1 = timers s \<and>
      emitted (captureError cfg t1 g1 e c1 ty1 sv1) s = []"
    if "MAX_ERRORS_PER_WINDOW \<le> length (rate_window t1 s)"
    using that assms by (simp add: captureError_limited emitted_def)
  have b: "length (emitted (captureError cfg t2 g2 e' c2 ty2 sv2) (run cfg acts ?s1)) = 1"
    if lim: "MAX_ERRORS_PER_WINDOW \<le> length (rate_window t1 s)"
      and k: "dedupKey e \<notin> sentErrorHashes s" "dedupKey e' = dedupKey e"
      and acts: "\<forall>a \<in> set acts. no_capture a"
      and room: "length (rate_window t2 (run cfg acts ?s1)) < MAX_ERRORS_PER_WINDOW"
  proof -
    have "sentErrorHashes (run cfg acts ?s1) \<subseteq> sentErrorHashes s"
      using run_no_capture_hashes [OF acts, of cfg ?s1] a [OF lim] by simp
    with k have fresh: "dedupKey e' \<notin> sentErrorHashes (run cfg acts ?s1)" by auto
    have "isReady ?s1"
      using assms by (simp add: isReady_def captureError_fields)
    then have ready: "isReady (run cfg acts ?s1)"
      by (simp add: run_ready)
    show ?thesis
      by (simp add: emitted_captureError_sent [OF ready room fresh])
  qed
  have c: "emitted (captureError cfg t1 g1 e c1 ty1 sv1) s = [] \<and>
      errorTimestamps ?s1 = rate_window t1 s @ [t1] \<and> sentErrorHashes ?s1 = sentErrorHashes s"
    if "length (rate_window t1 s) < MAX_ERRORS_PER_WINDOW" "dedupKey e \<in> sentErrorHashes s"
    using that assms by (simp add: captureError_duplicate emitted_def)
  show ?thesis
    using a b c by blast
qed

theorem rate_limited_keeps_dedup_witness:
  "isReady scenario_limited \<and>
   MAX_ERRORS_PER_WINDOW \<le> length (rate_window 59999 scenario_limited) \<and>
   dedupKey scenario_error \<notin> sentErrorHashes scenario_limited \<and>
   sentErrorHashes (snd (captureError (scenario_cfg 2) 59999 ''g'' scenario_error None ''error'' Error scenario_limited)) = {} \<and>
   length (rate_window 60000 (run (scenario_cfg 2) [TimerFires 1 60000 ''g'']
     (snd (captureError (scenario_cfg 2) 59999 ''g'' scenario_error None ''error'' Error scenario_limited))))
     < MAX_ERRORS_PER_WINDOW \<and>
   length (emitted (captureError (scenario_cfg 2) 60000 ''g'' scenario_error None ''error'' Error)
     (run (scenario_cfg 2) [TimerFires 1 60000 ''g'']
       (snd (captureError (scenario_cfg 2) 59999 ''g'' scenario_error None ''error'' Error scenario_limited)))) = 1 \<and>
   dedupKey scenario_error \<in> sentErrorHashes (scenario_session\<lparr>sentErrorHashes := {dedupKey scenario_error}\<rparr>) \<and>
   errorTimestamps (snd (captureError (scenario_cfg 2) 5000 ''g'' scenario_error None ''error'' Error
     (scenario_session\<lparr>sentErrorHashes := {dedupKey scenario_error}\<rparr>))) = [5000]"
proof -
  let ?c = "scenario_cfg 2" and ?e = scenario_error and ?s = scenario_limited
  let ?d = "scenario_session\<lparr>sentErrorHashes := {dedupKey scenario_error}\<rparr>"
  let ?s1 = "snd (captureError ?c 59999 ''g'' ?e None ''error'' Error ?s)"
  have r: "isReady ?s" and rd: "isReady ?d"
    by (simp_all add: isReady_def scenario_limited_def scenario_session_def fresh_sdk_def)
  have lim: "MAX_ERRORS_PER_WINDOW \<le> length (rate_window 59999 ?s)"
    by (simp add: rate_window_def scenario_limited_def RATE_LIMIT_WINDOW_MS_def MAX_ERRORS_PER_WINDOW_def)
  have fresh: "dedupKey ?e \<notin> sentErrorHashes ?s" and h0: "sentErrorHashes ?s = {}"
    by (simp_all add: scenario_limited_def scenario_session_def fresh_sdk_def)
  have nc: "\<forall>a \<in> set [TimerFires 1 60000 ''g'']. no_capture a" by simp
  have ts1: "errorTimestamps ?s1 = [0, 1, 2, 3, 4, 5, 6, 7, 8, 9]"
    by (simp add: captureError_limited [OF r lim])
      (simp add: rate_window_def scenario_limited_def RATE_LIMIT_WINDOW_MS_def)
  have ts2: "errorTimestamps (run ?c [TimerFires 1 60000 ''g''] ?s1) = [0, 1, 2, 3, 4, 5, 6, 7, 8, 9]"
    by (simp add: run_def fire_fields ts1)
  have room: "length (rate_window 60000 (run ?c [TimerFires 1 60000 ''g''] ?s1)) < MAX_ERRORS_PER_WINDOW"
    unfolding rate_window_def ts2
    by (simp add: RATE_LIMIT_WINDOW_MS_def MAX_ERRORS_PER_WINDOW_def)
  have roomd: "length (rate_window 5000 ?d) < MAX_ERRORS_PER_WINDOW" and wd: "rate_window 5000 ?d = []"
    and dup: "dedupKey ?e \<in> sentErrorHashes ?d"
    by (simp_all add: rate_window_def scenario_session_def fresh_sdk_def MAX_ERRORS_PER_WINDOW_def)
  note th = rate_limited_keeps_dedup [OF r, where cfg = ?c and e = ?e and e' = ?e
      and ?t1.0 = 59999 and ?g1.0 = "''g''" and ?c1.0 = None and ?ty1.0 = "''error''" and ?sv1.0 = Error
      and ?t2.0 = 60000 and ?g2.0 = "''g''" and ?c2.0 = None and ?ty2.0 = "''error''" and ?sv2.0 = Error
      and acts = "[TimerFires 1 60000 ''g'']"]
  note thd = rate_limited_keeps_dedup [OF rd, where cfg = ?c and e = ?e
      and ?t1.0 = 5000 and ?g1.0 = "''g''" and ?c1.0 = None and ?ty1.0 = "''error''" and ?sv1.0 = Error]
  have one: "sentErrorHashes ?s1 = {}"
    using mp [OF conjunct1 [OF th] lim] h0 by simp
  have two: "length (emitted (captureError ?c 60000 ''g'' ?e None ''error'' Error)
     (run ?c [TimerFires 1 60000 ''g''] ?s1)) = 1"
    using conjunct1 [OF conjunct2 [OF th]] lim fresh nc room by blast
  have three: "errorTimestamps (snd (captureError ?c 5000 ''g'' ?e None ''error'' Error ?d)) = [5000]"
    using conjunct2 [OF conjunct2 [OF thd]] roomd dup wd by simp
  show ?thesis
    using r lim fresh one room two dup three by blast
qed

lemma screen_inv_cleared:
  assumes "screen_inv s"
  shows "filter (\<lambda>t. is_activation (snd (snd t)))
           (case screenDebounceTimer s of
              Some h \<Rightarrow> filter (\<lambda>t. fst t \<noteq> h) (timers s) | None \<Rightarrow> timers s) = []"
  using assms by (auto simp: screen_inv_def filter_empty_conv split: option.splits)

lemma trackScreen_activation:
  assumes "\<not> destroyed s" "\<not> same_screen name path s" "screen_inv s"
  shows "activation_timers (snd (trackScreen cfg now gen name path s)) =
           [(nextTimerId s, now + screen_delay s, ActivateScreen name (effective_path name path) gen)]"
  using screen_inv_cleared [OF assms(3)]
  by (simp add: trackScreen_closed [OF assms(1,2)] activation_timers_def)

lemma screen_inv_perform: "screen_inv s \<Longrightarrow> screen_inv (perform cfg a s)"
proof (cases a)
  case (CaptureError now gen e ctx ty sev)
  assume "screen_inv s"
  then show ?thesis
    using captureError_timers [of cfg now gen e ctx ty sev s]
    unfolding CaptureError perform.simps screen_inv_def
    by (auto simp: captureError_fields)
next
  case (TrackScreen now gen name path)
  assume inv: "screen_inv s"
  show ?thesis
  proof (cases "destroyed s \<or> same_screen name path s")
    case True
    then show ?thesis using inv by (simp add: TrackScreen trackScreen_skip)
  next
    case False
    have "\<forall>t \<in> set (case screenDebounceTimer s of
              Some h \<Rightarrow> filter (\<lambda>t. fst t \<noteq> h) (timers s) | None \<Rightarrow> timers s).
            \<not> is_activation (snd (snd t))"
      using screen_inv_cleared [OF inv] by (simp add: filter_empty_conv)
    then show ?thesis
      using False by (auto simp: TrackScreen trackScreen_closed screen_inv_def)
  qed
next
  case (SendScreenDuration now)
  assume "screen_inv s"
  then show ?thesis
    using SendScreenDuration by (simp add: screen_inv_def sendScreenDuration_fields)
next
  case (TimerFires h now gen)
  assume "screen_inv s"
  then show ?thesis
    using fire_timers [of cfg h now gen s]
    unfolding TimerFires perform.simps screen_inv_def
    by (auto simp: fire_fields)
qed

lemma screen_inv_fresh: "screen_inv fresh_sdk"
  by (simp add: screen_inv_def fresh_sdk_def)

lemma emitted_trackScreen:
  "emitted (trackScreen cfg now gen name path) s =
     (if destroyed s \<or> same_screen name path s then []
      else emitted (sendScreenDuration cfg now) s)"
  by (cases "destroyed s \<or> same_screen name path s")
    (simp_all add: emitted_def trackScreen_skip trackScreen_closed)

lemma fire_activation:
  assumes fnd: "find (\<lambda>t. fst t = h) (timers s) = Some (h, due, ActivateScreen n p v)"
    and due: "due \<le> now" and inv: "screen_inv s" and slot: "screenDebounceTimer s = Some h"
  shows "currentScreenViewId (fire cfg h now gen s) = Some v \<and>
         currentScreenName (fire cfg h now gen s) = Some n \<and>
         currentScreenPath (fire cfg h now gen s) = Some p \<and>
         activation_timers (fire cfg h now gen s) = []"
proof -
  have f: "fire cfg h now gen s =
      snd (activateScreen cfg now gen n p v (s\<lparr>timers := filter (\<lambda>t. fst t \<noteq> h) (timers s)\<rparr>))"
    using due by (simp add: fire_def fnd run_callback_def clearTimeout_def)
  have "\<forall>t \<in> set (timers s). is_activation (snd (snd t)) \<longrightarrow> fst t = h"
    using inv slot by (auto simp: screen_inv_def)
  then have "filter (\<lambda>t. is_activation (snd (snd t))) (filter (\<lambda>t. fst t \<noteq> h) (timers s)) = []"
    by (auto simp: filter_empty_conv)
  then show ?thesis
    by (simp add: f activateScreen_fields activation_timers_def)
qed

text \<open>
  C8. \<open>trackScreen\<close> called twice in a row with the same name and path, on a live
  client whose current screen is another one. When the second call comes before the
  timer of the first fires, the first timer is cancelled (it can never fire) and
  exactly one activation is pending, that of the second call, which activates the
  screen when it fires and leaves none pending. When the second call comes after the
  timer of the first has fired, the screen is active and the second call does nothing.
  The two calls together emit at most one duration event, and none at all when no
  screen view was active before.
\<close>

theorem trackScreen_twice:
  assumes live: "\<not> destroyed s" and wf: "timers_wf s" and inv: "screen_inv s"
    and new: "\<not> same_screen name path s"
    and s1: "s1 = snd (trackScreen cfg t1 g1 name path s)"
    and s2: "s2 = snd (trackScreen cfg t2 g2 name path s1)"
    and f1: "f1 = fire cfg (nextTimerId s) tf gf s1"
    and f2: "f2 = fire cfg (Suc (nextTimerId s)) tf gf s2"
  shows "activation_timers s2 =
           [(Suc (nextTimerId s), t2 + screen_delay s,
             ActivateScreen name (effective_path name path) g2)] \<and>
         fire cfg (nextTimerId s) t g s2 = s2 \<and>
         (t2 + screen_delay s \<le> tf \<longrightarrow>
            currentScreenViewId f2 = Some g2 \<and> activation_timers f2 = []) \<and>
         length (emitted (trackScreen cfg t1 g1 name path) s @
                 emitted (trackScreen cfg t2 g2 name path) s1) \<le> 1 \<and>
         (currentScreenViewId s = None \<longrightarrow>
            emitted (trackScreen cfg t1 g1 name path) s = [] \<and>
            emitted (trackScreen cfg t2 g2 name path) s1 = []) \<and>
         (t1 + screen_delay s \<le> tf \<longrightarrow>
            currentScreenViewId f1 = Some g1 \<and> activation_timers f1 = [] \<and>
            trackScreen cfg t2 g2 name path f1 = (Inr (), f1))"
proof -
  let ?n = "nextTimerId s" and ?p = "effective_path name path"
  let ?d = "snd (sendScreenDuration cfg t1 s)"
  have c1: "trackScreen cfg t1 g1 name path s =
     (Inr (), ?d\<lparr>timers := (case screenDebounceTimer s of
                      Some h \<Rightarrow> filter (\<lambda>t. fst t \<noteq> h) (timers s)
                    | None \<Rightarrow> timers s) @
            [(?n, t1 + screen_delay s, ActivateScreen name ?p g1)],
         nextTimerId := Suc ?n, screenDebounceTimer := Some ?n\<rparr>)"
    by (rule trackScreen_closed [OF live new])
  have fields1: "destroyed s1 = destroyed s" "currentScreenName s1 = currentScreenName s"
    "currentScreenPath s1 = currentScreenPath s" "isFirstScreen s1 = isFirstScreen s"
    "nextTimerId s1 = Suc ?n" "screenDebounceTimer s1 = Some ?n"
    "initialized s1 = initialized s"
    by (simp_all add: s1 c1 sendScreenDuration_fields)
  have live1: "\<not> destroyed s1" and new1: "\<not> same_screen name path s1"
    and delay1: "screen_delay s1 = screen_delay s"
    using live new by (simp_all add: fields1 same_screen_def screen_delay_def)
  have inv1: "screen_inv s1"
    using screen_inv_perform [OF inv, of cfg "TrackScreen t1 g1 name path"] by (simp add: s1)
  have act1: "activation_timers s1 = [(?n, t1 + screen_delay s, ActivateScreen name ?p g1)]"
    unfolding s1 by (rule trackScreen_activation [OF live new inv])
  have A1: "activation_timers s2 = [(Suc ?n, t2 + screen_delay s, ActivateScreen name ?p g2)]"
    unfolding s2 using trackScreen_activation [OF live1 new1 inv1, of cfg t2 g2]
    by (simp add: fields1 delay1)
  have old: "\<forall>t \<in> set (timers s). fst t \<noteq> ?n"
    using wf by (fastforce simp: timers_wf_def)
  have t2: "timers s2 = filter (\<lambda>t. fst t \<noteq> ?n) (timers s1) @
      [(Suc ?n, t2 + screen_delay s, ActivateScreen name ?p g2)]"
    by (simp add: s2 trackScreen_closed [OF live1 new1] fields1 delay1 sendScreenDuration_fields)
  have "find (\<lambda>t. fst t = ?n) (timers s2) = None"
    by (simp add: t2 find_None_iff)
  then have A2: "fire cfg ?n t g s2 = s2"
    by (simp add: fire_def)
  have e1: "emitted (trackScreen cfg t1 g1 name path) s = emitted (sendScreenDuration cfg t1) s"
    and e2: "emitted (trackScreen cfg t2 g2 name path) s1 = emitted (sendScreenDuration cfg t2) s1"
    using live new live1 new1 by (simp_all add: emitted_trackScreen)
  have vid1: "currentScreenViewId s1 = (if duration_due t1 s then None else currentScreenViewId s)"
    by (simp add: s1 c1 sendScreenDuration_closed)
  have A3: "length (emitted (trackScreen cfg t1 g1 name path) s @
                 emitted (trackScreen cfg t2 g2 name path) s1) \<le> 1"
    unfolding e1 e2
    by (cases "duration_due t1 s") (simp_all add: emitted_sendScreenDuration duration_due_def vid1)
  have A4: "emitted (trackScreen cfg t1 g1 name path) s = [] \<and>
            emitted (trackScreen cfg t2 g2 name path) s1 = []"
    if "currentScreenViewId s = None"
    unfolding e1 e2 using that
    by (simp add: emitted_sendScreenDuration duration_due_def vid1)
  have B: "currentScreenViewId f1 = Some g1 \<and> activation_timers f1 = [] \<and>
            trackScreen cfg t2 g2 name path f1 = (Inr (), f1)"
    if due: "t1 + screen_delay s \<le> tf"
  proof -
    have "find (\<lambda>t. fst t = ?n) (case screenDebounceTimer s of
                      Some h \<Rightarrow> filter (\<lambda>t. fst t \<noteq> h) (timers s)
                    | None \<Rightarrow> timers s) = None"
      using old by (auto simp: find_None_iff split: option.splits)
    then have fnd: "find (\<lambda>t. fst t = ?n) (timers s1) =
        Some (?n, t1 + screen_delay s, ActivateScreen name ?p g1)"
      by (simp add: s1 c1 find_append_None)
    have fa: "currentScreenViewId f1 = Some g1 \<and> currentScreenName f1 = Some name \<and>
        currentScreenPath f1 = Some ?p \<and> activation_timers f1 = []"
      unfolding f1 by (rule fire_activation [OF fnd due inv1 fields1(6)])
    then have none: "activation_timers f1 = []" by simp
    have dst: "destroyed f1 = destroyed s1"
      by (simp add: f1 fire_fields)
    have same: "same_screen name path f1"
      using fa by (simp add: same_screen_def)
    show ?thesis
      using fa same by (simp add: trackScreen_skip)
  qed
  have A5: "currentScreenViewId f2 = Some g2 \<and> activation_timers f2 = []"
    if due: "t2 + screen_delay s \<le> tf"
  proof -
    have fnd: "find (\<lambda>t. fst t = Suc ?n) (timers s2) =
        Some (Suc ?n, t2 + screen_delay s, ActivateScreen name ?p g2)"
    proof -
      have "\<forall>t \<in> set (timers s1). fst t \<noteq> Suc ?n"
        using timers_wf_perform [OF wf, of cfg "TrackScreen t1 g1 name path"]
        by (fastforce simp: timers_wf_def s1 [symmetric] fields1)
      then have "find (\<lambda>t. fst t = Suc ?n) (filter (\<lambda>t. fst t \<noteq> ?n) (timers s1)) = None"
        by (auto simp: find_None_iff)
      then show ?thesis by (simp add: t2 find_append_None)
    qed
    have inv2: "screen_inv s2"
      using screen_inv_perform [OF inv1, of cfg "TrackScreen t2 g2 name path"] by (simp add: s2)
    have slot2: "screenDebounceTimer s2 = Some (Suc ?n)"
      by (simp add: s2 trackScreen_closed [OF live1 new1] fields1)
    from fire_activation [OF fnd due inv2 slot2, of cfg gf] show ?thesis
      by (simp add: f2)
  qed
  show ?thesis
    using A1 A2 A3 A4 A5 B by blast
qed

theorem trackScreen_twice_witness:
  "\<not> destroyed scenario_session \<and> timers_wf scenario_session \<and> screen_inv scenario_session \<and>
   \<not> same_screen ''Home'' None scenario_session \<and>
   activation_timers (snd (trackScreen (scenario_cfg 2) 100 ''v2'' ''Home'' None
       (snd (trackScreen (scenario_cfg 2) 0 ''v1'' ''Home'' None scenario_session)))) =
     [(2, 400, ActivateScreen ''Home'' ''/Home'' ''v2'')] \<and>
   emitted (trackScreen (scenario_cfg 2) 0 ''v1'' ''Home'' None) scenario_session = [] \<and>
   emitted (trackScreen (scenario_cfg 2) 100 ''v2'' ''Home'' None)
     (snd (trackScreen (scenario_cfg 2) 0 ''v1'' ''Home'' None scenario_session)) = [] \<and>
   currentScreenViewId (fire (scenario_cfg 2) 2 400 ''g''
     (snd (trackScreen (scenario_cfg 2) 100 ''v2'' ''Home'' None
       (snd (trackScreen (scenario_cfg 2) 0 ''v1'' ''Home'' None scenario_session))))) = Some ''v2'' \<and>
   currentScreenViewId (fire (scenario_cfg 2) 1 400 ''g''
     (snd (trackScreen (scenario_cfg 2) 0 ''v1'' ''Home'' None scenario_session))) = Some ''v1'' \<and>
   trackScreen (scenario_cfg 2) 500 ''v2'' ''Home'' None
     (fire (scenario_cfg 2) 1 400 ''g''
       (snd (trackScreen (scenario_cfg 2) 0 ''v1'' ''Home'' None scenario_session))) =
     (Inr (), fire (scenario_cfg 2) 1 400 ''g''
       (snd (trackScreen (scenario_cfg 2) 0 ''v1'' ''Home'' None scenario_session)))"
proof -
  let ?c = "scenario_cfg 2" and ?s = scenario_session
  let ?s1 = "snd (trackScreen ?c 0 ''v1'' ''Home'' None ?s)"
  have live: "\<not> destroyed ?s" and wf: "timers_wf ?s" and inv: "screen_inv ?s"
    and new: "\<not> same_screen ''Home'' None ?s"
    by (simp_all add: timers_wf_def screen_inv_def same_screen_def scenario_session_def fresh_sdk_def)
  have v: "nextTimerId ?s = 1" "screen_delay ?s = 300" "currentScreenViewId ?s = None"
    "effective_path ''Home'' None = ''/Home''"
    by (simp_all add: scenario_session_def fresh_sdk_def screen_delay_def FIRST_SCREEN_DELAY_def
        effective_path_def)
  note a = trackScreen_twice [OF live wf inv new refl refl refl refl,
      where cfg = ?c and ?t1.0 = 0 and ?g1.0 = "''v1''" and ?t2.0 = 100 and ?g2.0 = "''v2''"
        and tf = 400 and gf = "''g''" and t = 400 and g = "''g''"]
  note b = trackScreen_twice [OF live wf inv new refl refl refl refl,
      where cfg = ?c and ?t1.0 = 0 and ?g1.0 = "''v1''" and ?t2.0 = 500 and ?g2.0 = "''v2''"
        and tf = 400 and gf = "''g''" and t = 400 and g = "''g''"]
  have one: "activation_timers (snd (trackScreen ?c 100 ''v2'' ''Home'' None ?s1)) =
     [(2, 400, ActivateScreen ''Home'' ''/Home'' ''v2'')]"
    using a by (simp add: v numeral_2_eq_2)
  have two: "emitted (trackScreen ?c 0 ''v1'' ''Home'' None) ?s = [] \<and>
      emitted (trackScreen ?c 100 ''v2'' ''Home'' None) ?s1 = []"
    using a by (simp add: v numeral_2_eq_2)
  have three: "currentScreenViewId (fire ?c 2 400 ''g'' (snd (trackScreen ?c 100 ''v2'' ''Home'' None ?s1)))
      = Some ''v2''"
    using a by (simp add: v numeral_2_eq_2)
  have four: "currentScreenViewId (fire ?c 1 400 ''g'' ?s1) = Some ''v1'' \<and>
      trackScreen ?c 500 ''v2'' ''Home'' None (fire ?c 1 400 ''g'' ?s1) = (Inr (), fire ?c 1 400 ''g'' ?s1)"
    using b by (simp add: v)
  show ?thesis
    using live wf inv new one two three four by blast
qed

section \<open>The re-entrancy guard of flush\<close>

lemma getItem_flushing: "flushing (snd (getItem k s)) = flushing s"
  by (simp add: getItem_def consume_fault_def)

lemma setItem_flushing: "flushing (snd (setItem k v s)) = flushing s"
  by (simp add: setItem_def consume_fault_def)

lemma getQueue_flushing: "flushing (snd (getQueue s)) = flushing s"
  using getItem_flushing [of KEY_OFFLINE_QUEUE s]
  by (cases "getItem KEY_OFFLINE_QUEUE s")
    (auto simp: getQueue_def try_catch_def and_then_def ret_def throw_def
      split: sum.splits option.splits)

lemma saveQueue_flushing: "flushing (snd (saveQueue q s)) = flushing s"
  using setItem_flushing [of KEY_OFFLINE_QUEUE "Json q" s]
  by (cases "setItem KEY_OFFLINE_QUEUE (Json q) s")
    (auto simp: saveQueue_def try_catch_def ret_def split: sum.splits)

lemma and_then_getQueue_flushing:
  assumes "\<And>q s. flushing (snd (k q s)) = flushing s"
  shows "flushing (snd (and_then getQueue k s)) = flushing s"
proof -
  obtain q s1 where g: "getQueue s = (Inr q, s1)"
    using getQueue_Inr [of s] by auto
  have "flushing s1 = flushing s"
    using getQueue_flushing [of s] g by simp
  then show ?thesis
    by (simp add: and_then_def g assms)
qed

lemma removeEvent_flushing: "flushing (snd (removeEvent i s)) = flushing s"
  unfolding removeEvent_def by (rule and_then_getQueue_flushing) (rule saveQueue_flushing)

lemma updateEvent_flushing: "flushing (snd (updateEvent e s)) = flushing s"
  unfolding updateEvent_def
  by (rule and_then_getQueue_flushing) (simp add: Let_def saveQueue_flushing ret_def)

lemma enqueueEvent_flushing: "flushing (snd (enqueueEvent e s)) = flushing s"
  unfolding enqueueEvent_def by (rule and_then_getQueue_flushing) (rule saveQueue_flushing)

lemma pruneQueue_flushing: "flushing (snd (pruneQueue m s)) = flushing s"
  unfolding pruneQueue_def
  by (rule and_then_getQueue_flushing) (simp add: saveQueue_flushing ret_def)

lemma catch_ignore_flushing:
  assumes "flushing (snd (m s)) = flushing s"
  shows "flushing (snd (catch_ignore m s)) = flushing s"
  using assms by (cases "m s") (auto simp: catch_ignore_def try_catch_def ret_def split: sum.splits)

lemma flush_settle_flushing: "flushing (flush_settle e res s) = flushing s"
  unfolding flush_settle_def
  by (rule catch_ignore_flushing) (simp add: removeEvent_flushing updateEvent_flushing)

lemma sendOrQueue_flushing: "flushing (snd (sendOrQueue cfg now gen ep d res s)) = flushing s"
proof -
  let ?s1 = "s\<lparr>requests := requests s @ [(apiUrl cfg @ ep, d)]\<rparr>"
  let ?ev = "\<lparr>event_id = gen, endpoint = ep, data = d, timestamp = now, retryCount = 0\<rparr>"
  show ?thesis
  proof (cases "send_result res")
    case True
    then show ?thesis by (simp add: sendOrQueue_def and_then_def send_closed ret_def)
  next
    case False
    obtain r s2 where e: "enqueueEvent ?ev ?s1 = (r, s2)" by (cases "enqueueEvent ?ev ?s1") auto
    have f2: "flushing s2 = flushing s"
      using enqueueEvent_flushing [of ?ev ?s1] e by simp
    show ?thesis
      using False f2 pruneQueue_flushing [of "maxQueueSize cfg" s2]
      by (cases r) (simp_all add: sendOrQueue_def and_then_def send_closed e)
  qed
qed

lemma send_start_flushing: "flushing (send_start cfg e s) = flushing s"
  by (simp add: send_start_def)

lemma fold_send_start_flushing: "flushing (fold (send_start cfg) b s) = flushing s"
  by (induction b arbitrary: s) (simp_all add: send_start_flushing)

lemma flush_call_cases:
  "(flushing s \<and> flush_call cfg s = (Skipped, s)) \<or>
   (\<not> flushing s \<and> (\<exists>s'. flush_call cfg s = (Finished, s') \<and> \<not> flushing s')) \<or>
   (\<not> flushing s \<and> (\<exists>b s'. flush_call cfg s = (Awaiting b, s') \<and> b \<noteq> [] \<and> flushing s'))"
proof (cases "flushing s")
  case True
  then show ?thesis by (simp add: flush_call_def)
next
  case False
  obtain q s1 where g: "getQueue (s\<lparr>flushing := True\<rparr>) = (Inr q, s1)"
    using getQueue_Inr [of "s\<lparr>flushing := True\<rparr>"] by auto
  have f1: "flushing s1"
    using getQueue_flushing [of "s\<lparr>flushing := True\<rparr>"] g by simp
  show ?thesis
    using False f1
    by (cases q) (simp_all add: flush_call_def g fold_send_start_flushing send_start_flushing)
qed

lemma flush_inv_step: "flush_inv st \<Longrightarrow> flush_inv (sched_step cfg a st)"
proof -
  assume inv: "flush_inv st"
  obtain s running where st: "st = (s, running)" by (cases st) auto
  show ?thesis
  proof (cases a)
    case Call_flush
    from flush_call_cases [of s cfg] inv show ?thesis
      by (auto simp: st Call_flush flush_inv_def)
  next
    case (Settle i event res)
    show ?thesis
    proof (cases "i < length running \<and> event \<in> set (running ! i)")
      case False
      then have "sched_step cfg a st = st" by (auto simp: st Settle)
      then show ?thesis using inv by simp
    next
      case True
      with inv obtain b where r: "running = [b]" and i: "i = 0" and fl: "flushing s"
        by (cases running) (auto simp: flush_inv_def st)
      show ?thesis
        using True fl
        by (simp add: st Settle r i flush_inv_def flush_finally_def flush_settle_flushing)
    qed
  next
    case (Send_or_queue now gen ep d res)
    then show ?thesis
      using inv by (simp add: st flush_inv_def sendOrQueue_flushing)
  qed
qed

lemma flush_inv_run: "flush_inv st \<Longrightarrow> flush_inv (sched_run cfg steps st)"
  unfolding sched_run_def
  by (induction steps arbitrary: st) (simp_all add: flush_inv_step)

text \<open>
  C3. While a flush is in progress (the flag is set) a call of \<open>flush\<close> returns at once
  and leaves the state as it is: the store is not read, no request is issued, the queue
  is not touched. A flush that runs always ends with the flag cleared. In every run of
  the event loop that starts with the flag cleared, at most one flush is in progress at
  any time, the flag is set exactly while one is, and a call of \<open>flush\<close> during it
  changes nothing.
\<close>

theorem flush_reentrancy:
  shows "(flushing s \<longrightarrow>
            flush cfg net s = (Inr (), s) \<and> flush_call cfg s = (Skipped, s)) \<and>
         (\<not> flushing s \<longrightarrow> \<not> flushing (snd (flush cfg net s))) \<and>
         (\<not> flushing s \<longrightarrow>
            length (snd (sched_run cfg steps (s, []))) \<le> 1 \<and>
            (flushing (fst (sched_run cfg steps (s, []))) \<longleftrightarrow>
               snd (sched_run cfg steps (s, [])) \<noteq> []) \<and>
            (snd (sched_run cfg steps (s, [])) \<noteq> [] \<longrightarrow>
               sched_step cfg Call_flush (sched_run cfg steps (s, [])) =
                 sched_run cfg steps (s, [])))"
proof -
  have a: "flush cfg net s = (Inr (), s) \<and> flush_call cfg s = (Skipped, s)" if "flushing s"
    using that by (simp add: flush_skip flush_call_def)
  have b: "\<not> flushing (snd (flush cfg net s))" if "\<not> flushing s"
    using that by (simp add: flush_def try_finally_def split: prod.splits)
  have c: "length (snd (sched_run cfg steps (s, []))) \<le> 1 \<and>
            (flushing (fst (sched_run cfg steps (s, []))) \<longleftrightarrow>
               snd (sched_run cfg steps (s, [])) \<noteq> []) \<and>
            (snd (sched_run cfg steps (s, [])) \<noteq> [] \<longrightarrow>
               sched_step cfg Call_flush (sched_run cfg steps (s, [])) =
                 sched_run cfg steps (s, []))"
    if "\<not> flushing s"
  proof -
    have "flush_inv (s, [])" using that by (simp add: flush_inv_def)
    then have inv: "flush_inv (sched_run cfg steps (s, []))" by (rule flush_inv_run)
    obtain s' running where r: "sched_run cfg steps (s, []) = (s', running)"
      by (cases "sched_run cfg steps (s, [])") auto
    have "sched_step cfg Call_flush (s', running) = (s', running)" if "running \<noteq> []"
      using inv that by (simp add: r flush_inv_def flush_call_def)
    then show ?thesis
      using inv by (simp add: r flush_inv_def)
  qed
  show ?thesis
    using a b c by blast
qed

theorem flush_reentrancy_witness:
  "flushing (fresh_sdk\<lparr>flushing := True\<rparr>) \<and>
   flush (scenario_cfg 2) scenario_net (fresh_sdk\<lparr>flushing := True\<rparr>) =
     (Inr (), fresh_sdk\<lparr>flushing := True\<rparr>) \<and>
   \<not> flushing (with_queue [scenario_event ''B'' 0, scenario_event ''C'' 0] fresh_sdk) \<and>
   \<not> flushing (snd (flush (scenario_cfg 2) scenario_net
      (with_queue [scenario_event ''B'' 0, scenario_event ''C'' 0] fresh_sdk))) \<and>
   snd (sched_run (scenario_cfg 2) [Call_flush, Call_flush]
      (with_queue [scenario_event ''B'' 0, scenario_event ''C'' 0] fresh_sdk, [])) =
     [[scenario_event ''B'' 0, scenario_event ''C'' 0]] \<and>
   flushing (fst (sched_run (scenario_cfg 2) [Call_flush, Call_flush]
      (with_queue [scenario_event ''B'' 0, scenario_event ''C'' 0] fresh_sdk, []))) \<and>
   sched_step (scenario_cfg 2) Call_flush
     (sched_run (scenario_cfg 2) [Call_flush, Call_flush]
       (with_queue [scenario_event ''B'' 0, scenario_event ''C'' 0] fresh_sdk, [])) =
     sched_run (scenario_cfg 2) [Call_flush, Call_flush]
       (with_queue [scenario_event ''B'' 0, scenario_event ''C'' 0] fresh_sdk, [])"
proof -
  let ?c = "scenario_cfg 2" and ?f = "fresh_sdk\<lparr>flushing := True\<rparr>"
  let ?s = "with_queue [scenario_event ''B'' 0, scenario_event ''C'' 0] fresh_sdk"
  let ?r = "sched_run ?c [Call_flush, Call_flush] (?s, [])"
  have f: "flushing ?f" by simp
  have n: "\<not> flushing ?s" and nf: "faults ?s = []" by (simp_all add: fresh_sdk_def)
  note a = flush_reentrancy [of ?f ?c scenario_net "[]"]
  note b = flush_reentrancy [of ?s ?c scenario_net "[Call_flush, Call_flush]"]
  have one: "flush ?c scenario_net ?f = (Inr (), ?f)"
    using a f by blast
  have two: "\<not> flushing (snd (flush ?c scenario_net ?s))"
    using b n by blast
  have c1: "flush_call ?c ?s =
      (Awaiting [scenario_event ''B'' 0, scenario_event ''C'' 0],
       fold (send_start ?c) [scenario_event ''B'' 0, scenario_event ''C'' 0] (?s\<lparr>flushing := True\<rparr>))"
    using n nf by (simp add: flush_call_def getQueue_ok)
  define s1 where "s1 = fold (send_start ?c) [scenario_event ''B'' 0, scenario_event ''C'' 0] (?s\<lparr>flushing := True\<rparr>)"
  have fl1: "flushing s1"
    unfolding s1_def fold_send_start_flushing by simp
  have step1: "sched_step ?c Call_flush (?s, []) = (s1, [[scenario_event ''B'' 0, scenario_event ''C'' 0]])"
    unfolding sched_step.simps c1 s1_def by simp
  have step2: "sched_step ?c Call_flush (s1, [[scenario_event ''B'' 0, scenario_event ''C'' 0]]) =
      (s1, [[scenario_event ''B'' 0, scenario_event ''C'' 0]])"
    using fl1 unfolding sched_step.simps flush_call_def by simp
  have "?r = sched_step ?c Call_flush (sched_step ?c Call_flush (?s, []))"
    by (simp add: sched_run_def del: sched_step.simps)
  then have "?r = (s1, [[scenario_event ''B'' 0, scenario_event ''C'' 0]])"
    by (simp only: step1 step2)
  then have run: "snd ?r = [[scenario_event ''B'' 0, scenario_event ''C'' 0]]"
    by simp
  then have ne: "snd ?r \<noteq> []" by simp
  have three: "flushing (fst ?r)" and four: "sched_step ?c Call_flush ?r = ?r"
    using b n ne by blast+
  show ?thesis
    using f one n two run three four by blast
qed

section \<open>Flush and the steps of the event loop\<close>




















section \<open>Runs without overlap\<close>









lemma loop_run_Cons: "loop_run cfg (ev # evs) st = loop_run cfg evs (loop_step cfg ev st)"
  by (simp add: loop_run_def)







































section \<open>The flag at the suspension points\<close>

lemma flushes_update:
  assumes "i < length ts"
  shows "flushes (ts[i := t]) + (if is_flush (ts ! i) then 1 else 0) =
         flushes ts + (if is_flush t then 1 else 0)"
proof -
  have "ts = take i ts @ ts ! i # drop (Suc i) ts"
    using assms by (simp add: id_take_nth_drop [symmetric])
  moreover have "ts[i := t] = take i ts @ t # drop (Suc i) ts"
    using assms by (simp add: upd_conv_take_nth_drop)
  ultimately have "flushes (ts[i := t]) + (if is_flush (ts ! i) then 1 else 0) =
      length (filter is_flush (take i ts)) + length (filter is_flush (drop (Suc i) ts)) +
      (if is_flush t then 1 else 0) + (if is_flush (ts ! i) then 1 else 0)"
    by (simp add: flushes_def)
  moreover have "flushes ts = length (filter is_flush (take i ts)) +
      (if is_flush (ts ! i) then 1 else 0) + length (filter is_flush (drop (Suc i) ts))"
    unfolding flushes_def
    by (subst (1) \<open>ts = take i ts @ ts ! i # drop (Suc i) ts\<close>) simp
  ultimately show ?thesis by simp
qed

lemma flushes_append: "flushes (ts @ [t]) = flushes ts + (if is_flush t then 1 else 0)"
  by (simp add: flushes_def)

lemma begin_op_flushing: "flushing (snd (begin_op qop s)) = flushing s"
  using getItem_flushing [of KEY_OFFLINE_QUEUE s]
  by (cases "getItem KEY_OFFLINE_QUEUE s") (simp add: begin_op_def)

lemma resume_op_flushing: "flushing (snd (resume_op p s)) = flushing s"
  by (cases p) (simp_all add: saveQueue_flushing split: option.splits)

lemma handler_fetch_flushing: "flushing (snd (handler_fetch net h s)) = flushing s"
proof (cases h)
  case (Sending e)
  show ?thesis
    using begin_op_flushing [of "handler_op net e" s]
    by (cases "begin_op (handler_op net e) s") (simp add: Sending)
qed simp_all

lemma handler_store_flushing: "flushing (snd (handler_store h s)) = flushing s"
proof (cases h)
  case (Updating p)
  show ?thesis
    using resume_op_flushing [of p s]
    by (cases "resume_op p s") (auto simp: Updating split: option.splits)
qed simp_all

lemma await_handlers_cases:
  "(await_handlers hs s = (Ended, s\<lparr>flushing := False\<rparr>)) \<or>
   (await_handlers hs s = (Flush_waiting hs, s))"
  by (simp add: await_handlers_def)

lemma task_store_cases:
  "(is_flush t \<and> \<not> is_flush (fst (task_store cfg t s)) \<and> \<not> flushing (snd (task_store cfg t s))) \<or>
   (is_flush t = is_flush (fst (task_store cfg t s)) \<and>
    flushing (snd (task_store cfg t s)) = flushing s)"
proof (cases t)
  case (Flush_reading r)
  then show ?thesis by (simp add: Let_def fold_send_start_flushing)
next
  case (Soq_enqueuing p)
  show ?thesis
    using resume_op_flushing [of p s] begin_op_flushing [of "Prune (maxQueueSize cfg)" "snd (resume_op p s)"]
    by (cases "resume_op p s") (auto simp: Soq_enqueuing split: option.splits prod.splits)
next
  case (Soq_pruning p)
  show ?thesis
    using resume_op_flushing [of p s]
    by (cases "resume_op p s") (auto simp: Soq_pruning split: option.splits)
qed simp_all

lemma loop_inv_step: "loop_inv st \<Longrightarrow> loop_inv (loop_step cfg ev st)"
proof -
  assume inv: "loop_inv st"
  obtain s ts where st: "st = (s, ts)" by (cases st)
  from inv have le: "flushes ts \<le> 1" and fl: "flushing s \<longleftrightarrow> flushes ts = 1"
    by (simp_all add: loop_inv_def st)
  show ?thesis
  proof (cases ev)
    case Flush_called
    show ?thesis
    proof (cases "flushing s")
      case True
      then show ?thesis using inv by (simp add: st Flush_called)
    next
      case False
      obtain r s' where g: "getItem KEY_OFFLINE_QUEUE (s\<lparr>flushing := True\<rparr>) = (r, s')"
        by (cases "getItem KEY_OFFLINE_QUEUE (s\<lparr>flushing := True\<rparr>)")
      have "flushing s'"
        using getItem_flushing [of KEY_OFFLINE_QUEUE "s\<lparr>flushing := True\<rparr>"] g by simp
      then show ?thesis
        using False le fl by (simp add: st Flush_called g loop_inv_def flushes_append)
    qed
  next
    case (SendOrQueue_called ep d)
    then show ?thesis
      using le fl by (simp add: st loop_inv_def flushes_append)
  next
    case (Handler_fetch_settled i j net)
    show ?thesis
    proof (cases "i < length ts")
      case False
      then show ?thesis using inv by (simp add: st Handler_fetch_settled)
    next
      case i: True
      show ?thesis
      proof (cases "ts ! i")
        case (Flush_waiting hs)
        show ?thesis
        proof (cases "j < length hs")
          case False
          then show ?thesis using inv i by (simp add: st Handler_fetch_settled Flush_waiting)
        next
          case True
          obtain h s' where hf: "handler_fetch net (hs ! j) s = (h, s')"
            by (cases "handler_fetch net (hs ! j) s")
          have f': "flushing s' = flushing s"
            using handler_fetch_flushing [of net "hs ! j" s] hf by simp
          have "flushes (ts[i := Flush_waiting (hs[j := h])]) = flushes ts"
            using flushes_update [OF i, of "Flush_waiting (hs[j := h])"] Flush_waiting by simp
          then show ?thesis
            using i True le fl f'
            by (simp add: st Handler_fetch_settled Flush_waiting hf loop_inv_def)
        qed
      qed (use inv i in \<open>simp_all add: st Handler_fetch_settled\<close>)
    qed
  next
    case (Soq_fetch_settled i res now gen)
    show ?thesis
    proof (cases "i < length ts")
      case False
      then show ?thesis using inv by (simp add: st Soq_fetch_settled)
    next
      case i: True
      show ?thesis
      proof (cases "ts ! i")
        case (Soq_sending ep d)
        obtain p s' where b: "begin_op (Append (queued now gen ep d)) s = (p, s')"
          by (cases "begin_op (Append (queued now gen ep d)) s")
        have f': "flushing s' = flushing s"
          using begin_op_flushing [of "Append (queued now gen ep d)" s] b by simp
        have a: "flushes (ts[i := Ended]) = flushes ts"
          using flushes_update [OF i, of Ended] Soq_sending by simp
        have c: "flushes (ts[i := Soq_enqueuing p]) = flushes ts"
          using flushes_update [OF i, of "Soq_enqueuing p"] Soq_sending by simp
        show ?thesis
          using i le fl f' a c
          by (simp add: st Soq_fetch_settled Soq_sending b loop_inv_def)
      qed (use inv i in \<open>simp_all add: st Soq_fetch_settled\<close>)
    qed
  next
    case (Store_settled i)
    show ?thesis
    proof (cases "i < length ts")
      case False
      then show ?thesis using inv by (simp add: st Store_settled)
    next
      case i: True
      obtain t s' where ts: "task_store cfg (ts ! i) s = (t, s')"
        by (cases "task_store cfg (ts ! i) s")
      from task_store_cases [of "ts ! i" cfg s]
      have "(is_flush (ts ! i) \<and> \<not> is_flush t \<and> \<not> flushing s') \<or>
            (is_flush (ts ! i) = is_flush t \<and> flushing s' = flushing s)"
        by (simp add: ts)
      then show ?thesis
        using flushes_update [OF i, of t] i le fl
        by (auto simp: st Store_settled ts loop_inv_def split: if_splits)
    qed
  next
    case (Handler_store_settled i j)
    show ?thesis
    proof (cases "i < length ts")
      case False
      then show ?thesis using inv by (simp add: st Handler_store_settled)
    next
      case i: True
      show ?thesis
      proof (cases "ts ! i")
        case (Flush_waiting hs)
        show ?thesis
        proof (cases "j < length hs")
          case False
          then show ?thesis using inv i by (simp add: st Handler_store_settled Flush_waiting)
        next
          case True
          obtain h s' where hs: "handler_store (hs ! j) s = (h, s')"
            by (cases "handler_store (hs ! j) s")
          have f': "flushing s' = flushing s"
            using handler_store_flushing [of "hs ! j" s] hs by simp
          from await_handlers_cases [of "hs[j := h]" s']
          show ?thesis
          proof
            assume a: "await_handlers (hs[j := h]) s' = (Ended, s'\<lparr>flushing := False\<rparr>)"
            have "flushes (ts[i := Ended]) + 1 = flushes ts"
              using flushes_update [OF i, of Ended] Flush_waiting by simp
            then show ?thesis
              using i True le
              by (simp add: st Handler_store_settled Flush_waiting hs a loop_inv_def)
          next
            assume a: "await_handlers (hs[j := h]) s' = (Flush_waiting (hs[j := h]), s')"
            have "flushes (ts[i := Flush_waiting (hs[j := h])]) = flushes ts"
              using flushes_update [OF i, of "Flush_waiting (hs[j := h])"] Flush_waiting by simp
            then show ?thesis
              using i True le fl f'
              by (simp add: st Handler_store_settled Flush_waiting hs a loop_inv_def)
          qed
        qed
      qed (use inv i in \<open>simp_all add: st Handler_store_settled\<close>)
    qed
  qed
qed

text \<open>
  At every suspension point of every run that starts with the flag cleared and nothing
  in flight, at most one flush is in progress, the flag is set exactly while one is,
  and a call of \<open>flush\<close> made while the flag is set changes nothing.
\<close>

lemma loop_flag:
  assumes "\<not> flushing s"
  shows "loop_inv (loop_run cfg evs (s, []))"
    and "flushing (fst (loop_run cfg evs (s, []))) \<Longrightarrow>
         loop_step cfg Flush_called (loop_run cfg evs (s, [])) = loop_run cfg evs (s, [])"
proof -
  have "loop_inv st \<Longrightarrow> loop_inv (fold (loop_step cfg) evs st)" for st
    by (induction evs arbitrary: st) (simp_all add: loop_inv_step)
  moreover have "loop_inv (s, [])"
    using assms by (simp add: loop_inv_def flushes_def)
  ultimately show "loop_inv (loop_run cfg evs (s, []))"
    by (simp add: loop_run_def)
  show "flushing (fst (loop_run cfg evs (s, []))) \<Longrightarrow>
         loop_step cfg Flush_called (loop_run cfg evs (s, [])) = loop_run cfg evs (s, [])"
    by (cases "loop_run cfg evs (s, [])") simp
qed

end
